theory Spec2Isabelle
  imports Complex_Main
begin

section \<open>Python string primitives used by the chunker\<close>

text \<open>
  A Python \<^verbatim>\<open>str\<close> is modelled as a \<^typ>\<open>string\<close>, one \<^typ>\<open>char\<close> per code point
  (code points up to 255). Indices and the cursor of the scan are Python integers
  (\<^typ>\<open>int\<close>): the cursor can become negative, and a negative slice bound counts from
  the end of the string.
\<close>

definition slice_index :: "int \<Rightarrow> int \<Rightarrow> nat" where
  \<comment> \<open>how \<^verbatim>\<open>s[lo:hi]\<close> clamps one bound for a sequence of length \<open>n\<close>\<close>
  "slice_index n i = nat (if i < 0 then max 0 (n + i) else min i n)"

definition py_slice :: "'a list \<Rightarrow> int \<Rightarrow> int \<Rightarrow> 'a list" where
  \<comment> \<open>\<^verbatim>\<open>xs[lo:hi]\<close>\<close>
  "py_slice xs lo hi =
     (let n = int (length xs); l = slice_index n lo; h = slice_index n hi
      in take (h - l) (drop l xs))"

fun rfind :: "'a list \<Rightarrow> 'a \<Rightarrow> int" where
  \<comment> \<open>\<^verbatim>\<open>s.rfind(c)\<close> for a one-character needle: the highest index holding \<open>c\<close>, or -1\<close>
  "rfind [] c = - 1"
| "rfind (x # xs) c =
     (let r = rfind xs c in if 0 \<le> r then r + 1 else if x = c then 0 else - 1)"

definition is_space :: "char \<Rightarrow> bool" where
  \<comment> \<open>\<^verbatim>\<open>str.isspace\<close> on the code points below 256\<close>
  "is_space c = (c \<in> {CHR 0x09, CHR 0x0A, CHR 0x0B, CHR 0x0C, CHR 0x0D,
                       CHR 0x1C, CHR 0x1D, CHR 0x1E, CHR 0x1F, CHR 0x20,
                       CHR 0x85, CHR 0xA0})"

definition strip :: "string \<Rightarrow> string" where
  \<comment> \<open>\<^verbatim>\<open>s.strip()\<close>\<close>
  "strip s = rev (dropWhile is_space (rev (dropWhile is_space s)))"

section \<open>DocumentProcessor.chunk\_text\<close>

record DocumentProcessor =
  chunk_size :: int
  chunk_overlap :: int

definition break_point :: "string \<Rightarrow> int" where
  "break_point chunk =
     (let last_period = rfind chunk CHR ''.'';
          last_newline = rfind chunk CHR 0x0A;
          last_space = rfind chunk CHR '' ''
      in max last_period (max last_newline last_space))"

definition priority_break_point :: "string \<Rightarrow> int" where
  \<comment> \<open>the break point as the specification words it: the last period if the window has
      one, else the last newline if it has one, else the last space\<close>
  "priority_break_point chunk =
     (if 0 \<le> rfind chunk CHR ''.'' then rfind chunk CHR ''.''
      else if 0 \<le> rfind chunk CHR 0x0A then rfind chunk CHR 0x0A
      else rfind chunk CHR '' '')"

definition not_too_early :: "int \<Rightarrow> int \<Rightarrow> bool" where
  \<comment> \<open>\<^verbatim>\<open>break_point > self.chunk_size * 0.5\<close>\<close>
  "not_too_early bp sz = (real_of_int bp > real_of_int sz * 0.5)"

definition chunk_window :: "DocumentProcessor \<Rightarrow> string \<Rightarrow> int \<Rightarrow> string \<times> int" where
  \<comment> \<open>one pass of the loop body up to the strip: the chunk cut out and the value of \<^verbatim>\<open>end\<close>\<close>
  "chunk_window self text start =
     (let end0 = start + chunk_size self;
          chunk = py_slice text start end0
      in if end0 < int (length text) then
           (let bp = break_point chunk
            in if not_too_early bp (chunk_size self)
               then (py_slice chunk 0 (bp + 1), start + bp + 1)
               else (chunk, end0))
         else (chunk, end0))"

definition chunk_step :: "DocumentProcessor \<Rightarrow> string \<Rightarrow> int \<times> string list \<Rightarrow> int \<times> string list" where
  \<comment> \<open>the whole loop body, from \<^verbatim>\<open>(start, chunks)\<close> to their values after the pass\<close>
  "chunk_step self text st =
     (case st of (start, chunks) \<Rightarrow>
        (case chunk_window self text start of (chunk, end1) \<Rightarrow>
           (let chunk' = strip chunk
            in (end1 - chunk_overlap self,
                if chunk' \<noteq> [] then chunks @ [chunk'] else chunks))))"

partial_function (option) chunk_loop ::
  "DocumentProcessor \<Rightarrow> string \<Rightarrow> int \<Rightarrow> string list \<Rightarrow> string list option" where
  "chunk_loop self text start chunks =
     (if start < int (length text)
      then (case chunk_step self text (start, chunks) of
              (start', chunks') \<Rightarrow> chunk_loop self text start' chunks')
      else Some chunks)"

declare chunk_loop.simps [code]

definition chunk_text :: "DocumentProcessor \<Rightarrow> string \<Rightarrow> string list option" where
  \<comment> \<open>\<open>None\<close>: the loop never exits\<close>
  "chunk_text self text = chunk_loop self text 0 []"

definition valid_config :: "DocumentProcessor \<Rightarrow> bool" where
  \<comment> \<open>the configurations the contract of the chunker admits\<close>
  "valid_config self =
     (0 < chunk_size self \<and> 0 \<le> chunk_overlap self \<and> chunk_overlap self < chunk_size self)"

definition chunk_iter :: "DocumentProcessor \<Rightarrow> string \<Rightarrow> nat \<Rightarrow> int \<times> string list" where
  \<comment> \<open>\<^verbatim>\<open>(start, chunks)\<close> after \<open>n\<close> passes of the loop, or at its exit if that comes earlier\<close>
  "chunk_iter self text n =
     ((\<lambda>st. if fst st < int (length text) then chunk_step self text st else st) ^^ n) (0, [])"

definition covers :: "string \<Rightarrow> string list \<Rightarrow> nat \<Rightarrow> bool" where
  \<comment> \<open>position \<open>p\<close> of the text lies in a substring \<^verbatim>\<open>text[a:b]\<close> whose trimmed form is one
      of the chunks\<close>
  "covers text chunks p =
     (\<exists>c\<in>set chunks. \<exists>a b. a \<le> p \<and> p < b \<and> c = strip (take (b - a) (drop a text)))"

definition scan_inv :: "DocumentProcessor \<Rightarrow> string \<Rightarrow> int \<Rightarrow> int \<times> string list \<Rightarrow> bool" where
  \<comment> \<open>what holds of \<^verbatim>\<open>(start, chunks)\<close> at the head of the loop: the text before position
      \<open>E\<close> is covered, and the cursor is not beyond \<open>E\<close>\<close>
  "scan_inv self text E st =
     (fst st \<le> E \<and> 0 \<le> E \<and>
      (\<forall>p. int p < E \<and> p < length text \<and> \<not> is_space (text ! p) \<longrightarrow> covers text (snd st) p) \<and>
      (fst st < 0 \<longrightarrow>
         chunk_size self < int (length text) \<and> chunk_size self - chunk_overlap self \<le> E \<and>
         - chunk_size self < fst st))"

section \<open>DocumentProcessor.process\_directory\<close>

datatype error =
    FileNotFoundError
  | ValueError
  | OSError
  | EncodeError
  | DuplicateIDError

record metadata =
  source :: string
  chunk_index :: nat
  total_chunks :: nat
  file_path :: string

record 'm document =
  content :: string
  metadata :: 'm

text \<open>
  The file system the processor reads: \<^verbatim>\<open>os.path.exists\<close>, the triples
  \<^verbatim>\<open>(root, dirs, files)\<close> that \<^verbatim>\<open>os.walk\<close> yields, and what opening and reading a
  file as UTF-8 text gives.
\<close>

record file_system =
  path_exists :: "string \<Rightarrow> bool"
  walk :: "string \<Rightarrow> (string \<times> string list \<times> string list) list"
  read_text :: "string \<Rightarrow> error + string"

definition path_join :: "string \<Rightarrow> string \<Rightarrow> string" where
  \<comment> \<open>\<^verbatim>\<open>os.path.join(root, file)\<close> on POSIX\<close>
  "path_join rootdir file =
     (if file \<noteq> [] \<and> hd file = CHR ''/'' then file
      else if rootdir = [] \<or> last rootdir = CHR ''/'' then rootdir @ file
      else rootdir @ ''/'' @ file)"

definition path_name :: "string \<Rightarrow> string" where
  \<comment> \<open>\<^verbatim>\<open>Path(p).name\<close> of a path that does not end in a separator\<close>
  "path_name p = rev (takeWhile (\<lambda>c. c \<noteq> CHR ''/'') (rev p))"

definition path_suffix :: "string \<Rightarrow> string" where
  \<comment> \<open>\<^verbatim>\<open>Path(p).suffix\<close>\<close>
  "path_suffix p =
     (let name = path_name p; i = rfind name CHR ''.''
      in if 0 < i \<and> i < int (length name) - 1 then drop (nat i) name else [])"

definition lower_char :: "char \<Rightarrow> char" where
  "lower_char c =
     (let n = (of_char c :: nat)
      in if (65 \<le> n \<and> n \<le> 90) \<or> (192 \<le> n \<and> n \<le> 222 \<and> n \<noteq> 215)
         then char_of (n + 32) else c)"

definition lower :: "string \<Rightarrow> string" where
  \<comment> \<open>\<^verbatim>\<open>s.lower()\<close> on the code points below 256\<close>
  "lower s = map lower_char s"

definition load_text_file :: "file_system \<Rightarrow> string \<Rightarrow> error + string" where
  \<comment> \<open>the error of the read is logged and raised again\<close>
  "load_text_file fs fpath = read_text fs fpath"

definition load_file :: "file_system \<Rightarrow> string \<Rightarrow> error + string" where
  "load_file fs fpath =
     (let ext = lower (path_suffix fpath)
      in if ext = ''.txt'' then load_text_file fs fpath else Inl ValueError)"

definition startswith_dot :: "string \<Rightarrow> bool" where
  \<comment> \<open>\<^verbatim>\<open>file.startswith('.')\<close>\<close>
  "startswith_dot file = (case file of [] \<Rightarrow> False | c # _ \<Rightarrow> c = CHR ''.'')"

definition make_documents :: "string \<Rightarrow> string \<Rightarrow> string list \<Rightarrow> metadata document list" where
  \<comment> \<open>the loop \<^verbatim>\<open>for i, chunk in enumerate(chunks)\<close>: the documents it appends\<close>
  "make_documents file fpath chunks =
     map (\<lambda>(i, chunk).
            \<lparr>content = chunk,
             metadata = \<lparr>source = file, chunk_index = i,
                         total_chunks = length chunks, file_path = fpath\<rparr>\<rparr>)
         (enumerate 0 chunks)"

definition process_file ::
  "DocumentProcessor \<Rightarrow> file_system \<Rightarrow> string \<Rightarrow> string \<Rightarrow> metadata document list option" where
  \<comment> \<open>the body of the loop over files: the documents one file appends; \<open>None\<close> when
      \<^verbatim>\<open>chunk_text\<close> never returns. Every exception raised inside the \<^verbatim>\<open>try\<close> is
      logged and the file appends nothing.\<close>
  "process_file self fs rootdir file =
     (let fpath = path_join rootdir file
      in if startswith_dot file then Some []
         else (case load_file fs fpath of
                 Inl e \<Rightarrow> Some []
               | Inr text \<Rightarrow>
                   if strip text = [] then Some []
                   else (case chunk_text self text of
                           None \<Rightarrow> None
                         | Some chunks \<Rightarrow> Some (make_documents file fpath chunks))))"

fun process_files ::
  "DocumentProcessor \<Rightarrow> file_system \<Rightarrow> (string \<times> string) list \<Rightarrow> metadata document list
     \<Rightarrow> metadata document list option" where
  "process_files self fs [] documents = Some documents"
| "process_files self fs ((rootdir, file) # rest) documents =
     (case process_file self fs rootdir file of
        None \<Rightarrow> None
      | Some ds \<Rightarrow> process_files self fs rest (documents @ ds))"

definition walk_files :: "file_system \<Rightarrow> string \<Rightarrow> (string \<times> string) list" where
  \<comment> \<open>the pairs \<^verbatim>\<open>(root, file)\<close> in the order the two nested loops visit them\<close>
  "walk_files fs directory =
     concat (map (\<lambda>(rootdir, dirs, files). map (Pair rootdir) files) (walk fs directory))"

definition process_directory ::
  "DocumentProcessor \<Rightarrow> file_system \<Rightarrow> string \<Rightarrow> (error + metadata document list) option" where
  "process_directory self fs directory =
     (if \<not> path_exists fs directory then Some (Inl FileNotFoundError)
      else map_option Inr (process_files self fs (walk_files fs directory) []))"

definition example_fs :: file_system where
  \<comment> \<open>a directory with a text file, a blank file, a hidden file, a PDF, and a text file of
      the same name in a subdirectory\<close>
  "example_fs =
     \<lparr>path_exists = (\<lambda>p. p = ''docs''),
      walk = (\<lambda>p. if p = ''docs''
                  then [(''docs'', [''sub''], [''a.txt'', ''blank.txt'', ''.hidden.txt'', ''b.pdf'']),
                        (''docs/sub'', [], [''a.txt''])]
                  else []),
      read_text = (\<lambda>p. if p = ''docs/a.txt'' then Inr ''Sentence one. Sentence two. Sentence three.''
                       else if p = ''docs/blank.txt'' then Inr '' \<newline>  ''
                       else if p = ''docs/sub/a.txt'' then Inr ''hello''
                       else Inl OSError)\<rparr>"

section \<open>VectorStore\<close>

text \<open>
  The collection of the vector database is modelled as the list of its entries in
  insertion order. The embedding model and the distance of the database are fields of
  the store; an embedding is a value of an arbitrary type \<open>'e\<close>, and the embedding of a
  text can fail. The database itself is a library that \<^verbatim>\<open>VectorStore\<close> calls: its three
  operations \<^verbatim>\<open>count\<close>, \<^verbatim>\<open>add\<close> and \<^verbatim>\<open>query\<close> are modelled from what the specification
  says of the underlying store.
\<close>

record ('e, 'm) entry =
  entry_id :: string
  embedding :: 'e
  entry_document :: string
  entry_metadata :: 'm

record ('e, 'm) VectorStore =
  embedding_model :: "string \<Rightarrow> error + 'e"
  distance :: "'e \<Rightarrow> 'e \<Rightarrow> real"
  collection :: "('e, 'm) entry list"

definition collection_count :: "('e, 'm) entry list \<Rightarrow> nat" where
  \<comment> \<open>Modelled from the spec: \<^verbatim>\<open>collection.count\<close> of the vector database, the current
      number of entries\<close>
  "collection_count c = length c"

definition collection_add ::
  "('e, 'm) entry list \<Rightarrow> ('e, 'm) entry list \<Rightarrow> error + ('e, 'm) entry list" where
  \<comment> \<open>Modelled from the spec: \<^verbatim>\<open>collection.add\<close> of the vector database, which inserts
      the batch and never holds two entries with one id: ids repeated inside the batch
      are rejected, an entry whose id the collection already holds is ignored\<close>
  "collection_add c es =
     (if \<not> distinct (map entry_id es) then Inl DuplicateIDError
      else Inr (c @ filter (\<lambda>e. entry_id e \<notin> entry_id ` set c) es))"

definition collection_query ::
  "('e, 'm) entry list \<Rightarrow> ('e \<Rightarrow> 'e \<Rightarrow> real) \<Rightarrow> 'e list \<Rightarrow> int \<Rightarrow> error + string list list" where
  \<comment> \<open>Modelled from the spec: \<^verbatim>\<open>collection.query\<close> of the vector database, for each
      query embedding the documents of the \<open>n\<close> nearest entries, nearest first, earlier
      insertion first among equals; \<open>n\<close> must be positive\<close>
  "collection_query c d qs n =
     (if n \<le> 0 then Inl ValueError
      else Inr (map (\<lambda>q. map entry_document (take (nat n) (sort_key (\<lambda>e. d q (embedding e)) c))) qs))"

fun str_nat :: "nat \<Rightarrow> string" where
  \<comment> \<open>the decimal digits of a number, as an f-string prints it\<close>
  "str_nat n =
     (if n < 10 then [char_of (48 + n)]
      else str_nat (n div 10) @ [char_of (48 + n mod 10)])"

definition doc_id :: "nat \<Rightarrow> string" where
  "doc_id n = ''doc_'' @ str_nat n"

definition count :: "('e, 'm) VectorStore \<Rightarrow> nat" where
  "count self = collection_count (collection self)"

fun embed_documents ::
  "('e, 'm) VectorStore \<Rightarrow> 'm document list \<Rightarrow> nat \<Rightarrow> error + ('e, 'm) entry list" where
  \<comment> \<open>the loop \<^verbatim>\<open>for i, doc in enumerate(documents)\<close> from index \<open>i\<close> on: the rows of the
      four lists it fills, or the error of the first embedding that fails\<close>
  "embed_documents self [] i = Inr []"
| "embed_documents self (doc # docs) i =
     (case embedding_model self (content doc) of
        Inl e \<Rightarrow> Inl e
      | Inr emb \<Rightarrow>
          (case embed_documents self docs (i + 1) of
             Inl e \<Rightarrow> Inl e
           | Inr es \<Rightarrow>
               Inr (\<lparr>entry_id = doc_id (count self + i), embedding = emb,
                     entry_document = content doc, entry_metadata = metadata doc\<rparr> # es)))"

definition add_documents ::
  "('e, 'm) VectorStore \<Rightarrow> 'm document list \<Rightarrow> error option \<times> ('e, 'm) VectorStore" where
  \<comment> \<open>the exception raised, if any, and the store after the call\<close>
  "add_documents self documents =
     (if documents = [] then (None, self)
      else (case embed_documents self documents 0 of
              Inl e \<Rightarrow> (Some e, self)
            | Inr es \<Rightarrow>
                (case collection_add (collection self) es of
                   Inl e \<Rightarrow> (Some e, self)
                 | Inr c \<Rightarrow> (None, self\<lparr>collection := c\<rparr>))))"

definition search :: "('e, 'm) VectorStore \<Rightarrow> string \<Rightarrow> int \<Rightarrow> error + string list" where
  "search self query top_k =
     (if count self = 0 then Inr []
      else (case embedding_model self query of
              Inl e \<Rightarrow> Inl e
            | Inr query_embedding \<Rightarrow>
                (case collection_query (collection self) (distance self) [query_embedding]
                        (min top_k (int (count self))) of
                   Inl e \<Rightarrow> Inl e
                 | Inr documents \<Rightarrow>
                     (case documents of [] \<Rightarrow> Inr [] | relevant_docs # _ \<Rightarrow> Inr relevant_docs))))"

definition clear :: "('e, 'm) VectorStore \<Rightarrow> ('e, 'm) VectorStore" where
  \<comment> \<open>the collection is deleted and created again, empty\<close>
  "clear self = self\<lparr>collection := []\<rparr>"

definition ids_in_order :: "('e, 'm) VectorStore \<Rightarrow> bool" where
  \<comment> \<open>the ids of a collection that only \<^verbatim>\<open>add_documents\<close> has filled since it was created:
      \<^verbatim>\<open>doc_0\<close>, \<^verbatim>\<open>doc_1\<close>, \<dots> in insertion order\<close>
  "ids_in_order self = (map entry_id (collection self) = map doc_id [0..<count self])"

definition example_store :: "(int, unit) VectorStore" where
  \<comment> \<open>a store whose embedding of a text is its length and fails on the empty text,
      holding two entries\<close>
  "example_store =
     \<lparr>embedding_model = (\<lambda>s. if s = [] then Inl EncodeError else Inr (int (length s))),
      distance = (\<lambda>a b. real_of_int \<bar>a - b\<bar>),
      collection =
        [\<lparr>entry_id = ''doc_0'', embedding = 3, entry_document = ''abc'', entry_metadata = ()\<rparr>,
         \<lparr>entry_id = ''doc_1'', embedding = 1, entry_document = ''a'', entry_metadata = ()\<rparr>]\<rparr>"

declare str_nat.simps [simp del]

section \<open>Facts about the string primitives\<close>

lemma not_too_early_iff: "not_too_early bp sz \<longleftrightarrow> sz < 2 * bp"
  by (auto simp: not_too_early_def)

lemma rfind_bounds: "- 1 \<le> rfind xs c \<and> rfind xs c < int (length xs)"
  by (induction xs) (auto simp: Let_def)

lemma rfind_neg_iff: "rfind xs c < 0 \<longleftrightarrow> c \<notin> set xs"
  by (induction xs) (auto simp: Let_def)

lemma rfind_nth: "0 \<le> rfind xs c \<Longrightarrow> xs ! nat (rfind xs c) = c"
  by (induction xs) (auto simp: Let_def nat_add_distrib split: if_splits)

lemma rfind_greatest: "rfind xs c < int j \<Longrightarrow> j < length xs \<Longrightarrow> xs ! j \<noteq> c"
proof (induction xs arbitrary: j)
  case Nil
  then show ?case by simp
next
  case (Cons x xs)
  show ?case
  proof (cases j)
    case 0
    with Cons.prems show ?thesis
      using rfind_bounds [of xs c] by (auto simp: Let_def split: if_splits)
  next
    case (Suc k)
    with Cons.prems have "rfind xs c < int k" "k < length xs"
      using rfind_bounds [of xs c] by (auto simp: Let_def split: if_splits)
    with Cons.IH Suc show ?thesis by simp
  qed
qed

lemma break_point_bounds: "- 1 \<le> break_point chunk \<and> break_point chunk < int (length chunk)"
  using rfind_bounds [of chunk "CHR ''.''"] rfind_bounds [of chunk "CHR 0x0A"]
    rfind_bounds [of chunk "CHR '' ''"]
  by (simp add: break_point_def Let_def max_def)

lemma dropWhile_keeps: "x \<in> set xs \<Longrightarrow> \<not> P x \<Longrightarrow> x \<in> set (dropWhile P xs)"
  by (induction xs) auto

lemma strip_keeps: "x \<in> set xs \<Longrightarrow> \<not> is_space x \<Longrightarrow> x \<in> set (strip xs)"
  by (simp add: strip_def dropWhile_keeps)

lemma py_slice_nonneg:
  assumes "0 \<le> s" and "0 \<le> n"
  shows "py_slice xs s (s + n) = take (nat n) (drop (nat s) xs)"
proof (cases "s \<le> int (length xs)")
  case True
  show ?thesis
  proof (cases "s + n \<le> int (length xs)")
    case True
    with assms \<open>s \<le> int (length xs)\<close> show ?thesis
      by (simp add: py_slice_def slice_index_def Let_def nat_add_distrib)
  next
    case False
    with assms \<open>s \<le> int (length xs)\<close> show ?thesis
      by (simp add: py_slice_def slice_index_def Let_def)
  qed
next
  case False
  with assms show ?thesis
    by (simp add: py_slice_def slice_index_def Let_def)
qed

lemma stall_step:
  "chunk_step \<lparr>chunk_size = 5, chunk_overlap = 4\<rparr> ''aaa.bbb'' (0, chunks) = (0, chunks @ [''aaa.''])"
  by (simp add: chunk_step_def chunk_window_def py_slice_def slice_index_def break_point_def
      not_too_early_iff strip_def is_space_def)

lemma chunk_loop_rule:
  assumes "chunk_loop self text start chunks = Some r"
    and "I (start, chunks)"
    and "\<And>st. I st \<Longrightarrow> fst st < int (length text) \<Longrightarrow> I (chunk_step self text st)"
  shows "\<exists>s. int (length text) \<le> s \<and> I (s, r)"
proof -
  have "cfg = self \<longrightarrow> t = text \<longrightarrow> I (s, cs) \<longrightarrow> (\<exists>s'. int (length text) \<le> s' \<and> I (s', y))"
    if "chunk_loop cfg t s cs = Some y" for cfg t s cs y
  proof (rule chunk_loop.raw_induct [OF _ that])
    fix f cfg t s cs y
    assume IH: "\<And>cfg t s cs y. f cfg t s cs = Some y \<Longrightarrow>
        cfg = self \<longrightarrow> t = text \<longrightarrow> I (s, cs) \<longrightarrow> (\<exists>s'. int (length text) \<le> s' \<and> I (s', y))"
      and body: "(if s < int (length t)
          then case chunk_step cfg t (s, cs) of (s', cs') \<Rightarrow> f cfg t s' cs'
          else Some cs) = Some y"
    show "cfg = self \<longrightarrow> t = text \<longrightarrow> I (s, cs) \<longrightarrow> (\<exists>s'. int (length text) \<le> s' \<and> I (s', y))"
    proof (intro impI)
      assume eq: "cfg = self" "t = text" and inv: "I (s, cs)"
      show "\<exists>s'. int (length text) \<le> s' \<and> I (s', y)"
      proof (cases "s < int (length text)")
        case False
        with body eq have "cs = y" by simp
        with inv False show ?thesis by (intro exI [of _ s]) simp
      next
        case True
        obtain s1 cs1 where st: "chunk_step self text (s, cs) = (s1, cs1)"
          by (cases "chunk_step self text (s, cs)")
        from body True eq st have "f self text s1 cs1 = Some y" by simp
        moreover have "I (s1, cs1)" using assms(3) [OF inv] True st by simp
        ultimately show ?thesis using IH by blast
      qed
    qed
  qed
  with assms(1,2) show ?thesis by blast
qed

lemma chunk_window_advances:
  assumes "chunk_overlap self < chunk_size self"
    and "2 * chunk_overlap self \<le> chunk_size self + 2"
  shows "start < snd (chunk_window self text start) - chunk_overlap self"
  using assms by (auto simp: chunk_window_def Let_def not_too_early_iff)

lemma chunk_step_fst: "fst (chunk_step self text (start, chunks)) = snd (chunk_window self text start) - chunk_overlap self"
  by (simp add: chunk_step_def Let_def split: prod.splits)

lemma chunk_loop_terminates:
  assumes "chunk_overlap self < chunk_size self"
    and "2 * chunk_overlap self \<le> chunk_size self + 2"
  shows "\<exists>r. chunk_loop self text start chunks = Some r"
proof (induction "nat (int (length text) - start)" arbitrary: start chunks rule: less_induct)
  case less
  show ?case
  proof (cases "start < int (length text)")
    case False
    then show ?thesis by (simp add: chunk_loop.simps)
  next
    case True
    obtain start' chunks' where st: "chunk_step self text (start, chunks) = (start', chunks')"
      by (cases "chunk_step self text (start, chunks)")
    have "start < start'"
      using chunk_window_advances [OF assms, of start "text"] chunk_step_fst [of self "text" start chunks] st
      by simp
    with True have "nat (int (length text) - start') < nat (int (length text) - start)"
      by simp
    from less [OF this] obtain r where "chunk_loop self text start' chunks' = Some r" by blast
    with True st show ?thesis
      by (subst chunk_loop.simps) simp
  qed
qed

section \<open>Termination of the scan\<close>

text \<open>
  Claim C1: for every text and every configuration with \<open>max_size > 0\<close> and
  \<open>0 \<le> overlap < max_size\<close> the scan of \<^verbatim>\<open>chunk_text\<close> terminates. The code does
  not: with \<open>chunk_size = 5\<close> and \<open>chunk_overlap = 4\<close> the text \<^verbatim>\<open>aaa.bbb\<close> has its
  break point at index 3, the window is cut to \<^verbatim>\<open>aaa.\<close>, and the cursor moves from 0 to
  \<open>4 - 4 = 0\<close>: every pass starts where the last one did, and the loop never exits.
\<close>

theorem chunk_text_stalls:
  "valid_config \<lparr>chunk_size = 5, chunk_overlap = 4\<rparr> \<and>
   chunk_text \<lparr>chunk_size = 5, chunk_overlap = 4\<rparr> ''aaa.bbb'' = None"
proof -
  have "chunk_text \<lparr>chunk_size = 5, chunk_overlap = 4\<rparr> ''aaa.bbb'' \<noteq> Some r" for r
  proof
    assume "chunk_text \<lparr>chunk_size = 5, chunk_overlap = 4\<rparr> ''aaa.bbb'' = Some r"
    then have "chunk_loop \<lparr>chunk_size = 5, chunk_overlap = 4\<rparr> ''aaa.bbb'' 0 [] = Some r"
      by (simp add: chunk_text_def)
    from chunk_loop_rule [OF this, of "\<lambda>st. fst st = 0"]
    show False by (auto simp: stall_step)
  qed
  then show ?thesis by (auto simp: valid_config_def)
qed

section \<open>Length of the chunks\<close>

lemma py_slice_length_le: "length (py_slice xs lo hi) \<le> length xs"
  by (simp add: py_slice_def Let_def)

lemma py_slice_window_length:
  assumes "0 < sz"
  shows "int (length (py_slice xs s (s + sz))) \<le> sz"
  using assms by (auto simp: py_slice_def slice_index_def Let_def min_def max_def)

lemma strip_length_le: "length (strip s) \<le> length s"
proof -
  have "length (strip s) \<le> length (dropWhile is_space s)"
    unfolding strip_def using length_dropWhile_le [of is_space "rev (dropWhile is_space s)"]
    by simp
  also have "\<dots> \<le> length s" by (rule length_dropWhile_le)
  finally show ?thesis .
qed

lemma chunk_window_length:
  assumes "0 < chunk_size self"
  shows "int (length (fst (chunk_window self text start))) \<le> chunk_size self"
proof -
  let ?w = "py_slice text start (start + chunk_size self)"
  have w: "int (length ?w) \<le> chunk_size self"
    using assms by (rule py_slice_window_length)
  have "int (length (py_slice ?w 0 hi)) \<le> chunk_size self" for hi
    using py_slice_length_le [of ?w 0 hi] w by linarith
  with w show ?thesis
    by (simp add: chunk_window_def Let_def)
qed

lemma chunk_step_length:
  assumes "0 < chunk_size self"
    and "\<forall>c\<in>set (snd st). int (length c) \<le> chunk_size self"
  shows "\<forall>c\<in>set (snd (chunk_step self text st)). int (length c) \<le> chunk_size self"
proof -
  obtain start chunks where st: "st = (start, chunks)" by (cases st)
  obtain chunk end1 where w: "chunk_window self text start = (chunk, end1)"
    by (cases "chunk_window self text start")
  have "int (length chunk) \<le> chunk_size self"
    using chunk_window_length [OF assms(1), of "text" start] w by simp
  then have "int (length (strip chunk)) \<le> chunk_size self"
    using strip_length_le [of chunk] by linarith
  with assms(2) st w show ?thesis
    by (auto simp: chunk_step_def Let_def)
qed

lemma chunk_iter_length:
  assumes "0 < chunk_size self"
  shows "\<forall>c\<in>set (snd (chunk_iter self text n)). int (length c) \<le> chunk_size self"
proof (induction n)
  case 0
  then show ?case by (simp add: chunk_iter_def)
next
  case (Suc n)
  have "chunk_iter self text (Suc n) =
      (if fst (chunk_iter self text n) < int (length text)
       then chunk_step self text (chunk_iter self text n) else chunk_iter self text n)"
    by (simp add: chunk_iter_def)
  with Suc chunk_step_length [OF assms, of "chunk_iter self text n" "text"] show ?case
    by simp
qed

text \<open>
  Claim C9: for every text and every configuration with \<open>max_size > 0\<close>, every chunk
  that \<^verbatim>\<open>chunk_text\<close> emits has length at most \<open>max_size\<close>, whether or not the window
  holds a boundary character. It holds for the list \<^verbatim>\<open>chunks\<close> after any number of passes
  of the loop (so also where the loop never exits), and for the list returned.
\<close>

theorem chunk_length_bounded:
  assumes "0 < chunk_size self"
  shows "(\<forall>n. \<forall>c\<in>set (snd (chunk_iter self text n)). int (length c) \<le> chunk_size self) \<and>
         (\<forall>r. chunk_text self text = Some r \<longrightarrow> (\<forall>c\<in>set r. int (length c) \<le> chunk_size self))"
proof (intro conjI allI impI)
  fix n
  show "\<forall>c\<in>set (snd (chunk_iter self text n)). int (length c) \<le> chunk_size self"
    using assms by (rule chunk_iter_length)
next
  fix r
  assume "chunk_text self text = Some r"
  then have "chunk_loop self text 0 [] = Some r" by (simp add: chunk_text_def)
  from chunk_loop_rule [OF this, of "\<lambda>st. \<forall>c\<in>set (snd st). int (length c) \<le> chunk_size self"]
  show "\<forall>c\<in>set r. int (length c) \<le> chunk_size self"
    using chunk_step_length [OF assms] by auto
qed

lemma sentences_chunks:
  "chunk_text \<lparr>chunk_size = 20, chunk_overlap = 5\<rparr> ''Sentence one. Sentence two. Sentence three.'' =
     Some [''Sentence one.'', ''one. Sentence two.'', ''two. Sentence three.'', ''hree.'']"
  by code_simp

theorem chunk_length_bounded_witness:
  "0 < chunk_size \<lparr>chunk_size = 20, chunk_overlap = 5\<rparr> \<and>
   chunk_text \<lparr>chunk_size = 20, chunk_overlap = 5\<rparr> ''Sentence one. Sentence two. Sentence three.'' =
     Some [''Sentence one.'', ''one. Sentence two.'', ''two. Sentence three.'', ''hree.''] \<and>
   int (length ''two. Sentence three.'') \<le> chunk_size \<lparr>chunk_size = 20, chunk_overlap = 5\<rparr> \<and>
   snd (chunk_iter \<lparr>chunk_size = 20, chunk_overlap = 5\<rparr> ''Sentence one. Sentence two. Sentence three.'' 1) = [''Sentence one.''] \<and>
   int (length ''Sentence one.'') \<le> chunk_size \<lparr>chunk_size = 20, chunk_overlap = 5\<rparr>"
  using chunk_length_bounded [of "\<lparr>chunk_size = 20, chunk_overlap = 5\<rparr>"
      "''Sentence one. Sentence two. Sentence three.''"] sentences_chunks
  by (simp add: chunk_iter_def chunk_step_def chunk_window_def py_slice_def slice_index_def
      break_point_def not_too_early_iff strip_def is_space_def)

section \<open>Short and empty texts\<close>

lemma py_slice_whole:
  assumes "int (length xs) \<le> hi"
  shows "py_slice xs 0 hi = xs"
  using assms by (simp add: py_slice_def slice_index_def Let_def)

lemma chunk_window_short:
  assumes "int (length text) \<le> chunk_size self"
  shows "chunk_window self text 0 = (text, chunk_size self)"
  using assms by (simp add: chunk_window_def Let_def py_slice_whole)

lemma chunk_loop_exit:
  assumes "int (length text) \<le> start"
  shows "chunk_loop self text start chunks = Some chunks"
  using assms by (subst chunk_loop.simps) simp

lemma chunk_text_empty: "chunk_text self [] = Some []"
  by (simp add: chunk_text_def chunk_loop_exit)

text \<open>
  Claim C4, as stated: every text with \<open>0 < length < max_size\<close> and a non-empty trimmed
  form gives exactly one chunk, the trimmed text. The code gives more when a character
  that is not whitespace lies at or after position \<open>max_size - overlap\<close>: after the first
  pass the cursor is at \<open>max_size - overlap\<close>, still inside the text, and the tail from
  there is emitted again.
\<close>

theorem short_text_counterexample:
  "valid_config \<lparr>chunk_size = 10, chunk_overlap = 2\<rparr> \<and>
   0 < length ''abcdefghi'' \<and>
   int (length ''abcdefghi'') < chunk_size \<lparr>chunk_size = 10, chunk_overlap = 2\<rparr> \<and>
   strip ''abcdefghi'' = ''abcdefghi'' \<and>
   chunk_text \<lparr>chunk_size = 10, chunk_overlap = 2\<rparr> ''abcdefghi'' = Some [''abcdefghi'', ''i''] \<and>
   chunk_text \<lparr>chunk_size = 10, chunk_overlap = 2\<rparr> ''abcdefghi'' \<noteq> Some [strip ''abcdefghi'']"
  by code_simp

lemma strip_blank:
  assumes "\<forall>c\<in>set xs. is_space c"
  shows "strip xs = []"
proof -
  have d: "dropWhile is_space xs = []"
    unfolding dropWhile_eq_Nil_conv by (rule assms)
  show ?thesis unfolding strip_def d by simp
qed

lemma in_set_drop_nth:
  "x \<in> set (drop n xs) \<longleftrightarrow> (\<exists>i. n \<le> i \<and> i < length xs \<and> xs ! i = x)"
proof
  assume "x \<in> set (drop n xs)"
  then obtain j where j: "j < length (drop n xs)" "drop n xs ! j = x"
    by (auto simp: in_set_conv_nth)
  then have "n \<le> n + j \<and> n + j < length xs \<and> xs ! (n + j) = x"
    by auto
  then show "\<exists>i. n \<le> i \<and> i < length xs \<and> xs ! i = x" by blast
next
  assume "\<exists>i. n \<le> i \<and> i < length xs \<and> xs ! i = x"
  then obtain i where i: "n \<le> i" "i < length xs" "xs ! i = x" by blast
  then have "i - n < length (drop n xs)" "drop n xs ! (i - n) = x" by simp_all
  then show "x \<in> set (drop n xs)" by (metis nth_mem)
qed

lemma chunk_window_tail:
  assumes "0 \<le> start" and "int (length text) < chunk_size self"
  shows "chunk_window self text start = (drop (nat start) text, start + chunk_size self)"
proof -
  have "py_slice text start (start + chunk_size self) =
      take (nat (chunk_size self)) (drop (nat start) text)"
    using assms by (intro py_slice_nonneg) simp_all
  also have "\<dots> = drop (nat start) text"
    using assms by simp
  finally show ?thesis
    using assms by (simp add: chunk_window_def Let_def)
qed

lemma chunk_loop_blank_tail:
  assumes "int (length text) < chunk_size self"
    and "chunk_overlap self < chunk_size self"
  shows "0 \<le> start \<Longrightarrow> \<forall>c\<in>set (drop (nat start) text). is_space c \<Longrightarrow>
         chunk_loop self text start chunks = Some chunks"
proof (induction "nat (int (length text) - start)" arbitrary: start rule: less_induct)
  case less
  show ?case
  proof (cases "start < int (length text)")
    case False
    then show ?thesis by (simp add: chunk_loop_exit)
  next
    case True
    let ?s = "start + chunk_size self - chunk_overlap self"
    have step: "chunk_step self text (start, chunks) = (?s, chunks)"
      using less.prems assms(1)
      by (simp add: chunk_step_def chunk_window_tail strip_blank)
    have gt: "start < ?s" using assms(2) by simp
    with True have m: "nat (int (length text) - ?s) < nat (int (length text) - start)"
      by simp
    have "nat start \<le> nat ?s" using gt by simp
    then have "set (drop (nat ?s) text) \<subseteq> set (drop (nat start) text)"
      by (rule set_drop_subset_set_drop)
    with less.prems(2) have blank: "\<forall>c\<in>set (drop (nat ?s) text). is_space c" by blast
    from gt less.prems(1) have "0 \<le> ?s" by simp
    from less.hyps [OF m this blank] have "chunk_loop self text ?s chunks = Some chunks" .
    with True step show ?thesis
      by (subst chunk_loop.simps) simp
  qed
qed

lemma chunk_window_snd_le:
  assumes "0 < chunk_size self"
  shows "snd (chunk_window self text start) \<le> start + chunk_size self"
proof -
  let ?w = "py_slice text start (start + chunk_size self)"
  have "int (length ?w) \<le> chunk_size self"
    using assms by (rule py_slice_window_length)
  with break_point_bounds [of ?w] have "break_point ?w + 1 \<le> chunk_size self" by linarith
  then show ?thesis
    by (simp add: chunk_window_def Let_def)
qed

lemma chunk_step_grows:
  "length (snd st) \<le> length (snd (chunk_step self text st))"
  by (cases st) (simp add: chunk_step_def Let_def split: prod.splits)

lemma chunk_loop_no_advance:
  assumes "0 < chunk_size self" and "chunk_size self \<le> chunk_overlap self"
    and "start \<le> 0" and "0 < length text"
  shows "chunk_loop self text start chunks = None"
proof -
  have "chunk_loop self text start chunks \<noteq> Some r" for r
  proof
    assume "chunk_loop self text start chunks = Some r"
    from chunk_loop_rule [OF this, of "\<lambda>st. fst st \<le> 0"] assms(3)
    have "(\<And>st. fst st \<le> 0 \<Longrightarrow> fst st < int (length text) \<Longrightarrow>
             fst (chunk_step self text st) \<le> 0) \<Longrightarrow> \<exists>s. int (length text) \<le> s \<and> s \<le> 0"
      by simp
    moreover have "fst (chunk_step self text st) \<le> 0" if "fst st \<le> 0" for st
    proof -
      obtain s cs where st: "st = (s, cs)" by (cases st)
      have "fst (chunk_step self text (s, cs)) = snd (chunk_window self text s) - chunk_overlap self"
        by (simp add: chunk_step_def Let_def split: prod.splits)
      with chunk_window_snd_le [OF assms(1), of "text" s] assms(2) that st show ?thesis
        by simp
    qed
    ultimately obtain s where "int (length text) \<le> s" "s \<le> 0" by blast
    then have "int (length text) \<le> 0" by linarith
    with assms(4) show False by simp
  qed
  then show ?thesis by auto
qed

lemma first_pass:
  assumes "0 < length text" and "int (length text) < chunk_size self" and "strip text \<noteq> []"
  shows "chunk_text self text =
           chunk_loop self text (chunk_size self - chunk_overlap self) [strip text]"
proof -
  have "chunk_step self text (0, []) = (chunk_size self - chunk_overlap self, [strip text])"
    using assms(2,3) by (simp add: chunk_step_def chunk_window_short)
  with assms(1) show ?thesis
    unfolding chunk_text_def by (subst chunk_loop.simps) simp
qed

lemma second_pass_grows:
  assumes "0 < start" and "int (length text) < chunk_size self"
    and "p < length text" and "start \<le> int p" and "\<not> is_space (text ! p)"
  shows "chunk_loop self text start [c] \<noteq> Some [c]"
proof
  assume ret: "chunk_loop self text start [c] = Some [c]"
  from assms(3,4) have lt: "start < int (length text)" by simp
  have "text ! p \<in> set (drop (nat start) text)"
    unfolding in_set_drop_nth using assms(1,3,4) by (intro exI [of _ p]) simp
  then have ne: "strip (drop (nat start) text) \<noteq> []"
    using strip_keeps [OF _ assms(5)] by fastforce
  let ?s = "start + chunk_size self - chunk_overlap self"
  have step: "chunk_step self text (start, [c]) = (?s, [c, strip (drop (nat start) text)])"
    using assms(1,2) ne by (simp add: chunk_step_def chunk_window_tail)
  from ret lt step
  have "chunk_loop self text ?s [c, strip (drop (nat start) text)] = Some [c]"
    by (subst (asm) chunk_loop.simps) simp
  from chunk_loop_rule [OF this, of "\<lambda>st. 2 \<le> length (snd st)"]
  have "(\<And>st. 2 \<le> length (snd st) \<Longrightarrow> 2 \<le> length (snd (chunk_step self text st))) \<Longrightarrow> False"
    by simp
  moreover have "2 \<le> length (snd (chunk_step self text st))" if "2 \<le> length (snd st)" for st
    using chunk_step_grows [of st self "text"] that by linarith
  ultimately show False by blast
qed

text \<open>
  Claim C4, amended: a text with \<open>0 < length < max_size\<close> whose trimmed form is non-empty
  gives exactly one chunk, equal to the trimmed text, if and only if every character of
  the text at a position \<open>\<ge> max_size - overlap\<close> is whitespace, so in particular
  whenever \<open>length \<le> max_size - overlap\<close>; the empty text gives the empty sequence, in
  every configuration.
\<close>

theorem short_text_one_chunk:
  "(0 < length text \<and> int (length text) < chunk_size self \<and> strip text \<noteq> [] \<longrightarrow>
      (chunk_text self text = Some [strip text]) =
      (\<forall>p<length text. chunk_size self - chunk_overlap self \<le> int p \<longrightarrow> is_space (text ! p))) \<and>
   chunk_text self [] = Some []"
proof (intro conjI impI)
  show "chunk_text self [] = Some []" by (rule chunk_text_empty)
next
  assume a: "0 < length text \<and> int (length text) < chunk_size self \<and> strip text \<noteq> []"
  let ?s = "chunk_size self - chunk_overlap self"
  from a have first: "chunk_text self text = chunk_loop self text ?s [strip text]"
    by (intro first_pass) simp_all
  from a strip_blank [of "text"] obtain c where "c \<in> set text" "\<not> is_space c" by blast
  then obtain q where q: "q < length text" "\<not> is_space (text ! q)"
    by (auto simp: in_set_conv_nth)
  show "(chunk_text self text = Some [strip text]) =
      (\<forall>p<length text. ?s \<le> int p \<longrightarrow> is_space (text ! p))"
  proof
    assume ret: "chunk_text self text = Some [strip text]"
    show "\<forall>p<length text. ?s \<le> int p \<longrightarrow> is_space (text ! p)"
    proof (intro allI impI, rule ccontr)
      fix p
      assume p: "p < length text" "?s \<le> int p" "\<not> is_space (text ! p)"
      show False
      proof (cases "0 < ?s")
        case True
        from second_pass_grows [OF True _ p, of self "strip text"] a ret first
        show False by simp
      next
        case False
        then have "chunk_size self \<le> chunk_overlap self" "?s \<le> 0" by simp_all
        with a have "chunk_loop self text ?s [strip text] = None"
          by (intro chunk_loop_no_advance) simp_all
        with ret first show False by simp
      qed
    qed
  next
    assume blank: "\<forall>p<length text. ?s \<le> int p \<longrightarrow> is_space (text ! p)"
    with q have pos: "0 < ?s" by (cases "0 < ?s") auto
    have "\<forall>c\<in>set (drop (nat ?s) text). is_space c"
      using blank pos by (auto simp: in_set_drop_nth)
    with a pos have "chunk_loop self text ?s [strip text] = Some [strip text]"
      by (intro chunk_loop_blank_tail) simp_all
    with first show "chunk_text self text = Some [strip text]" by simp
  qed
qed

theorem short_text_one_chunk_witness:
  "0 < length ''abcdefgh '' \<and>
   int (length ''abcdefgh '') < chunk_size \<lparr>chunk_size = 10, chunk_overlap = 2\<rparr> \<and>
   strip ''abcdefgh '' = ''abcdefgh'' \<and>
   \<not> int (length ''abcdefgh '') \<le> chunk_size \<lparr>chunk_size = 10, chunk_overlap = 2\<rparr>
        - chunk_overlap \<lparr>chunk_size = 10, chunk_overlap = 2\<rparr> \<and>
   is_space (''abcdefgh '' ! 8) \<and>
   chunk_text \<lparr>chunk_size = 10, chunk_overlap = 2\<rparr> ''abcdefgh '' = Some [''abcdefgh''] \<and>
   chunk_text \<lparr>chunk_size = 10, chunk_overlap = 2\<rparr> [] = Some []"
proof -
  have s: "strip ''abcdefgh '' = ''abcdefgh''"
    by (simp add: strip_def is_space_def)
  have b: "is_space (''abcdefgh '' ! 8)"
    by (simp add: is_space_def)
  have t: "\<forall>p<length ''abcdefgh ''.
      chunk_size \<lparr>chunk_size = 10, chunk_overlap = 2\<rparr> - chunk_overlap \<lparr>chunk_size = 10, chunk_overlap = 2\<rparr> \<le> int p
      \<longrightarrow> is_space (''abcdefgh '' ! p)"
  proof (intro allI impI)
    fix p :: nat
    assume "p < length ''abcdefgh ''"
      and "chunk_size \<lparr>chunk_size = 10, chunk_overlap = 2\<rparr> - chunk_overlap \<lparr>chunk_size = 10, chunk_overlap = 2\<rparr> \<le> int p"
    then have "p = 8" by simp
    with b show "is_space (''abcdefgh '' ! p)" by simp
  qed
  from short_text_one_chunk [of "''abcdefgh ''" "\<lparr>chunk_size = 10, chunk_overlap = 2\<rparr>"] s t
  have "chunk_text \<lparr>chunk_size = 10, chunk_overlap = 2\<rparr> ''abcdefgh '' = Some [''abcdefgh''] \<and>
        chunk_text \<lparr>chunk_size = 10, chunk_overlap = 2\<rparr> [] = Some []"
    by simp
  with s b show ?thesis by simp
qed

section \<open>The break point of a window\<close>

lemma break_point_none:
  "break_point w = - 1 \<longleftrightarrow> set w \<inter> {CHR ''.'', CHR 0x0A, CHR '' ''} = {}"
proof -
  have "break_point w = - 1 \<longleftrightarrow>
      rfind w CHR ''.'' < 0 \<and> rfind w CHR 0x0A < 0 \<and> rfind w CHR '' '' < 0"
    using rfind_bounds [of w "CHR ''.''"] rfind_bounds [of w "CHR 0x0A"]
      rfind_bounds [of w "CHR '' ''"]
    by (auto simp: break_point_def Let_def max_def)
  then show ?thesis by (auto simp: rfind_neg_iff)
qed

lemma break_point_is_boundary:
  assumes "0 \<le> break_point w"
  shows "w ! nat (break_point w) \<in> {CHR ''.'', CHR 0x0A, CHR '' ''}"
proof -
  have "max a (max b c) = a \<or> max a (max b c) = b \<or> max a (max b c) = c" for a b c :: int
    by (simp add: max_def)
  then consider "break_point w = rfind w CHR ''.''" | "break_point w = rfind w CHR 0x0A"
    | "break_point w = rfind w CHR '' ''"
    unfolding break_point_def Let_def by blast
  then show ?thesis
  proof cases
    case 1
    with assms rfind_nth [of w "CHR ''.''"] show ?thesis by simp
  next
    case 2
    with assms rfind_nth [of w "CHR 0x0A"] show ?thesis by simp
  next
    case 3
    with assms rfind_nth [of w "CHR '' ''"] show ?thesis by simp
  qed
qed

lemma break_point_rightmost:
  assumes "break_point w < int j" and "j < length w"
  shows "w ! j \<notin> {CHR ''.'', CHR 0x0A, CHR '' ''}"
proof -
  from assms(1) have "rfind w CHR ''.'' < int j" "rfind w CHR 0x0A < int j"
    "rfind w CHR '' '' < int j"
    by (auto simp: break_point_def Let_def)
  with assms(2) show ?thesis
    using rfind_greatest [of w _ j] by auto
qed

lemma py_slice_prefix:
  assumes "- 1 \<le> b" and "b < int (length w)"
  shows "py_slice w 0 (b + 1) = take (nat (b + 1)) w"
  using assms by (simp add: py_slice_def slice_index_def Let_def)

text \<open>
  Claim C3, as stated: where more text follows the window, the break point is the
  rightmost occurrence, in priority order, of a period, then a newline, then a space.
  The code has no priority: it takes the largest of the three last positions. In the
  window \<^verbatim>\<open>aaaaaa.b c\<close> the period is at 6 and the last space at 8; the code breaks after
  the space.
\<close>

theorem break_point_priority_counterexample:
  "chunk_size \<lparr>chunk_size = 10, chunk_overlap = 0\<rparr> < int (length ''aaaaaa.b cdefgh'') \<and>
   py_slice ''aaaaaa.b cdefgh'' 0 10 = ''aaaaaa.b c'' \<and>
   priority_break_point ''aaaaaa.b c'' = 6 \<and>
   break_point ''aaaaaa.b c'' = 8 \<and>
   chunk_window \<lparr>chunk_size = 10, chunk_overlap = 0\<rparr> ''aaaaaa.b cdefgh'' 0 = (''aaaaaa.b '', 9) \<and>
   chunk_text \<lparr>chunk_size = 10, chunk_overlap = 0\<rparr> ''aaaaaa.b cdefgh'' = Some [''aaaaaa.b'', ''cdefgh'']"
  by code_simp

text \<open>
  Claim C3, amended: for every window whose right edge is strictly before the end of the
  text, the break point is the rightmost position of the window that holds a period, a
  newline or a space, whichever of the three it is (-1 when the window holds none); the
  window is truncated to end just after that position if and only if the position is
  strictly greater than \<open>max_size * 0.5\<close>, and otherwise the full window is kept.
\<close>

theorem break_point_rightmost_boundary:
  assumes "start + chunk_size self < int (length text)"
    and "w = py_slice text start (start + chunk_size self)"
  shows "(break_point w = - 1 \<longleftrightarrow> set w \<inter> {CHR ''.'', CHR 0x0A, CHR '' ''} = {}) \<and>
         (0 \<le> break_point w \<longrightarrow>
            break_point w < int (length w) \<and>
            w ! nat (break_point w) \<in> {CHR ''.'', CHR 0x0A, CHR '' ''} \<and>
            (\<forall>j. nat (break_point w) < j \<and> j < length w \<longrightarrow>
                 w ! j \<notin> {CHR ''.'', CHR 0x0A, CHR '' ''})) \<and>
         chunk_window self text start =
           (if real_of_int (break_point w) > real_of_int (chunk_size self) * 0.5
            then (take (nat (break_point w + 1)) w, start + break_point w + 1)
            else (w, start + chunk_size self))"
proof (intro conjI impI allI)
  show "break_point w = - 1 \<longleftrightarrow> set w \<inter> {CHR ''.'', CHR 0x0A, CHR '' ''} = {}"
    by (rule break_point_none)
next
  show "break_point w < int (length w)"
    using break_point_bounds [of w] by simp
next
  assume "0 \<le> break_point w"
  then show "w ! nat (break_point w) \<in> {CHR ''.'', CHR 0x0A, CHR '' ''}"
    by (rule break_point_is_boundary)
next
  fix j
  assume "0 \<le> break_point w" and "nat (break_point w) < j \<and> j < length w"
  then have "break_point w < int j" "j < length w" by auto
  then show "w ! j \<notin> {CHR ''.'', CHR 0x0A, CHR '' ''}"
    by (rule break_point_rightmost)
next
  have "py_slice w 0 (break_point w + 1) = take (nat (break_point w + 1)) w"
    using break_point_bounds [of w] by (intro py_slice_prefix) auto
  with assms show "chunk_window self text start =
           (if real_of_int (break_point w) > real_of_int (chunk_size self) * 0.5
            then (take (nat (break_point w + 1)) w, start + break_point w + 1)
            else (w, start + chunk_size self))"
    by (simp add: chunk_window_def Let_def not_too_early_def)
qed

theorem break_point_rightmost_boundary_witness:
  "0 + chunk_size \<lparr>chunk_size = 20, chunk_overlap = 5\<rparr>
     < int (length ''Sentence one. Sentence two. Sentence three.'') \<and>
   ''Sentence one. Senten'' = py_slice ''Sentence one. Sentence two. Sentence three.'' 0
       (0 + chunk_size \<lparr>chunk_size = 20, chunk_overlap = 5\<rparr>) \<and>
   break_point ''Sentence one. Senten'' = 13 \<and>
   ''Sentence one. Senten'' ! 13 = CHR '' '' \<and>
   chunk_window \<lparr>chunk_size = 20, chunk_overlap = 5\<rparr>
       ''Sentence one. Sentence two. Sentence three.'' 0 = (''Sentence one. '', 14)"
proof -
  have a: "0 + chunk_size \<lparr>chunk_size = 20, chunk_overlap = 5\<rparr>
     < int (length ''Sentence one. Sentence two. Sentence three.'')"
    by simp
  have b: "''Sentence one. Senten'' = py_slice ''Sentence one. Sentence two. Sentence three.'' 0
       (0 + chunk_size \<lparr>chunk_size = 20, chunk_overlap = 5\<rparr>)"
    by (simp add: py_slice_def slice_index_def)
  have c: "break_point ''Sentence one. Senten'' = 13"
    by (simp add: break_point_def)
  from break_point_rightmost_boundary [OF a b] show ?thesis
    by (simp add: c py_slice_def slice_index_def)
qed

section \<open>No text is lost between chunks\<close>

lemma covers_mono: "covers text cs p \<Longrightarrow> covers text (cs @ ds) p"
  by (auto simp: covers_def)

lemma covers_in_concat:
  assumes "covers text cs p" and "p < length text" and "\<not> is_space (text ! p)"
  shows "text ! p \<in> set (concat cs)"
proof -
  from assms(1) obtain c a b where c: "c \<in> set cs" "a \<le> p" "p < b"
    "c = strip (take (b - a) (drop a text))"
    by (auto simp: covers_def)
  have "take (b - a) (drop a text) ! (p - a) = text ! p"
    using c(2,3) assms(2) by simp
  moreover have "p - a < length (take (b - a) (drop a text))"
    using c(2,3) assms(2) by simp arith
  ultimately have "text ! p \<in> set (take (b - a) (drop a text))"
    by (metis nth_mem)
  then have "text ! p \<in> set c"
    unfolding c(4) using assms(3) by (rule strip_keeps)
  with c(1) show ?thesis by auto
qed

lemma chunk_window_nonneg:
  assumes "0 \<le> s" and "0 < chunk_size self"
  shows "fst (chunk_window self text s) =
           take (nat (snd (chunk_window self text s) - s)) (drop (nat s) text) \<and>
         s < snd (chunk_window self text s)"
proof -
  let ?w = "py_slice text s (s + chunk_size self)"
  have w: "?w = take (nat (chunk_size self)) (drop (nat s) text)"
    using assms by (intro py_slice_nonneg) auto
  show ?thesis
  proof (cases "s + chunk_size self < int (length text) \<and> not_too_early (break_point ?w) (chunk_size self)")
    case False
    with assms w show ?thesis
      by (auto simp: chunk_window_def Let_def)
  next
    case True
    let ?b = "break_point ?w"
    from True assms have b0: "0 \<le> ?b" by (simp add: not_too_early_iff)
    have bl: "?b < int (length ?w)" using break_point_bounds [of ?w] by simp
    have "py_slice ?w 0 (?b + 1) = take (nat (?b + 1)) ?w"
      using b0 bl by (intro py_slice_prefix) auto
    also have "\<dots> = take (nat (?b + 1)) (drop (nat s) text)"
    proof -
      have "length ?w \<le> nat (chunk_size self)" unfolding w by simp
      with bl have "nat (?b + 1) \<le> nat (chunk_size self)" by linarith
      then show ?thesis unfolding w by (simp add: min_def)
    qed
    finally have "py_slice ?w 0 (?b + 1) = take (nat (?b + 1)) (drop (nat s) text)" .
    with True b0 show ?thesis
      by (simp add: chunk_window_def Let_def)
  qed
qed


lemma chunk_step_nonneg:
  assumes "valid_config self" and "0 \<le> fst st" and "fst st < int (length text)"
    and "scan_inv self text E st"
  shows "\<exists>E'. scan_inv self text E' (chunk_step self text st)"
proof -
  obtain s cs where st: "st = (s, cs)" by (cases st)
  obtain chunk e1 where cw: "chunk_window self text s = (chunk, e1)"
    by (cases "chunk_window self text s")
  from assms(1) have size: "0 < chunk_size self" and ov: "0 \<le> chunk_overlap self"
    and ovs: "chunk_overlap self < chunk_size self"
    by (simp_all add: valid_config_def)
  from assms(2) st have s0: "0 \<le> s" by simp
  from chunk_window_nonneg [OF s0 size, of "text"] cw
  have chunk: "chunk = take (nat (e1 - s)) (drop (nat s) text)" and se: "s < e1"
    by simp_all
  let ?cs' = "if strip chunk \<noteq> [] then cs @ [strip chunk] else cs"
  have step: "chunk_step self text st = (e1 - chunk_overlap self, ?cs')"
    using st cw by (simp add: chunk_step_def Let_def)
  from assms(4) st have sE: "s \<le> E" and E0: "0 \<le> E"
    and cov: "\<And>p. int p < E \<Longrightarrow> p < length text \<Longrightarrow> \<not> is_space (text ! p) \<Longrightarrow> covers text cs p"
    by (simp_all add: scan_inv_def)
  let ?E = "max E e1"
  have new: "covers text ?cs' p"
    if p: "int p < ?E" "p < length text" "\<not> is_space (text ! p)" for p
  proof (cases "int p < E")
    case True
    from cov [OF this p(2,3)] show ?thesis
      by (auto intro: covers_mono)
  next
    case False
    with p(1) sE have range: "s \<le> int p" "int p < e1" by auto
    have idx: "p - nat s < length chunk"
      unfolding chunk using range p(2) s0 by simp linarith
    have "chunk ! (p - nat s) = text ! p"
      unfolding chunk using range p(2) s0 by simp
    with idx have "text ! p \<in> set chunk" by (metis nth_mem)
    then have "text ! p \<in> set (strip chunk)" using p(3) by (rule strip_keeps)
    then have ne: "strip chunk \<noteq> []" by auto
    have "nat s \<le> p" "p < nat e1" using range s0 by linarith+
    moreover have "strip chunk = strip (take (nat e1 - nat s) (drop (nat s) text))"
      using s0 se unfolding chunk by (simp add: nat_diff_distrib)
    ultimately have "covers text [strip chunk] p"
      unfolding covers_def by auto
    then have "covers text (cs @ [strip chunk]) p"
      by (auto simp: covers_def)
    with ne show ?thesis by simp
  qed
  have neg: "chunk_size self < int (length text) \<and>
      chunk_size self - chunk_overlap self \<le> ?E \<and> - chunk_size self < e1 - chunk_overlap self"
    if n: "e1 - chunk_overlap self < 0"
  proof -
    have trunc: "s + chunk_size self < int (length text) \<and>
        not_too_early (break_point (py_slice text s (s + chunk_size self))) (chunk_size self) \<and>
        e1 = s + break_point (py_slice text s (s + chunk_size self)) + 1"
    proof (rule ccontr)
      assume "\<not> ?thesis"
      with cw have "e1 = s + chunk_size self"
        by (auto simp: chunk_window_def Let_def split: if_splits)
      with n s0 ovs show False by simp
    qed
    then show ?thesis using s0 n ovs ov by (auto simp: not_too_early_iff)
  qed
  have "scan_inv self text ?E (chunk_step self text st)"
    unfolding scan_inv_def step using E0 ov new neg by auto
  then show ?thesis ..
qed

lemma chunk_step_neg:
  assumes "valid_config self" and "fst st < 0"
    and "scan_inv self text E st"
  shows "scan_inv self text E (chunk_step self text st)"
proof -
  obtain s cs where st: "st = (s, cs)" by (cases st)
  from assms(1) have size: "0 < chunk_size self" and ov: "0 \<le> chunk_overlap self"
    and ovs: "chunk_overlap self < chunk_size self"
    by (simp_all add: valid_config_def)
  from assms(2,3) st have s: "s < 0" "- chunk_size self < s"
    and len: "chunk_size self < int (length text)"
    and E: "chunk_size self - chunk_overlap self \<le> E" "0 \<le> E"
    and cov: "\<forall>p. int p < E \<and> p < length text \<and> \<not> is_space (text ! p) \<longrightarrow> covers text cs p"
    by (simp_all add: scan_inv_def)
  have empty: "py_slice text s (s + chunk_size self) = []"
    using s len by (simp add: py_slice_def slice_index_def Let_def)
  have "chunk_window self text s = ([], s + chunk_size self)"
    using s len size by (simp add: chunk_window_def Let_def empty break_point_def not_too_early_iff)
  then have step: "chunk_step self text st = (s + chunk_size self - chunk_overlap self, cs)"
    using st by (simp add: chunk_step_def Let_def strip_def)
  show ?thesis
    unfolding scan_inv_def step using s len E cov ovs by auto
qed

lemma scan_inv_initial: "scan_inv self text 0 (0, [])"
  by (simp add: scan_inv_def)

lemma chunk_text_covers:
  assumes "valid_config self" and "chunk_text self text = Some r"
    and "p < length text" and "\<not> is_space (text ! p)"
  shows "covers text r p"
proof -
  from assms(2) have loop: "chunk_loop self text 0 [] = Some r" by (simp add: chunk_text_def)
  have "\<exists>s. int (length text) \<le> s \<and> (\<exists>E. scan_inv self text E (s, r))"
  proof (rule chunk_loop_rule [OF loop, of "\<lambda>st. \<exists>E. scan_inv self text E st"])
    show "\<exists>E. scan_inv self text E (0, [])" using scan_inv_initial by blast
  next
    fix st
    assume "\<exists>E. scan_inv self text E st" and lt: "fst st < int (length text)"
    then obtain E where inv: "scan_inv self text E st" by blast
    show "\<exists>E. scan_inv self text E (chunk_step self text st)"
    proof (cases "0 \<le> fst st")
      case True
      from chunk_step_nonneg [OF assms(1) True lt inv] show ?thesis .
    next
      case False
      then have "fst st < 0" by simp
      from chunk_step_neg [OF assms(1) this inv] show ?thesis by blast
    qed
  qed
  then obtain s E where "int (length text) \<le> s" "scan_inv self text E (s, r)" by blast
  with assms(3,4) show ?thesis
    by (auto simp: scan_inv_def)
qed

text \<open>
  Where the scan returns, no character other than whitespace is lost: in a valid
  configuration, a position of the text that holds a non-whitespace character lies in a
  substring of the text whose trimmed form is one of the chunks returned, so the
  character is in that chunk. The scan returns whenever \<open>2 * overlap \<le> max_size + 2\<close>.
\<close>

lemma returned_chunks_cover:
  assumes "valid_config self"
  shows "(\<forall>r p. chunk_text self text = Some r \<and> p < length text \<and> \<not> is_space (text ! p) \<longrightarrow>
            covers text r p \<and> text ! p \<in> set (concat r)) \<and>
         (2 * chunk_overlap self \<le> chunk_size self + 2 \<longrightarrow> (\<exists>r. chunk_text self text = Some r))"
proof (intro conjI allI impI)
  fix r p
  assume a: "chunk_text self text = Some r \<and> p < length text \<and> \<not> is_space (text ! p)"
  with chunk_text_covers [OF assms, of "text" r p] show "covers text r p" by simp
  with a covers_in_concat [of "text" r p] show "text ! p \<in> set (concat r)" by blast
next
  assume "2 * chunk_overlap self \<le> chunk_size self + 2"
  with assms show "\<exists>r. chunk_text self text = Some r"
    unfolding chunk_text_def by (intro chunk_loop_terminates) (simp_all add: valid_config_def)
qed

lemma returned_chunks_cover_example:
  "valid_config \<lparr>chunk_size = 20, chunk_overlap = 5\<rparr> \<and>
   chunk_text \<lparr>chunk_size = 20, chunk_overlap = 5\<rparr> ''Sentence one. Sentence two. Sentence three.'' =
     Some [''Sentence one.'', ''one. Sentence two.'', ''two. Sentence three.'', ''hree.''] \<and>
   (14::nat) < length ''Sentence one. Sentence two. Sentence three.'' \<and>
   \<not> is_space (''Sentence one. Sentence two. Sentence three.'' ! 14) \<and>
   ''Sentence one. Sentence two. Sentence three.'' ! 14 \<in>
     set (concat [''Sentence one.'', ''one. Sentence two.'', ''two. Sentence three.'', ''hree.''])"
proof -
  have v: "valid_config \<lparr>chunk_size = 20, chunk_overlap = 5\<rparr>"
    by (simp add: valid_config_def)
  have l: "(14::nat) < length ''Sentence one. Sentence two. Sentence three.''"
    by simp
  have s: "\<not> is_space (''Sentence one. Sentence two. Sentence three.'' ! 14)"
    by (simp add: is_space_def)
  from returned_chunks_cover [OF v, of "''Sentence one. Sentence two. Sentence three.''"]
  have "''Sentence one. Sentence two. Sentence three.'' ! 14 \<in>
     set (concat [''Sentence one.'', ''one. Sentence two.'', ''two. Sentence three.'', ''hree.''])"
    using sentences_chunks l s by blast
  with v sentences_chunks l s show ?thesis by blast
qed

lemma stall_iter:
  "chunk_iter \<lparr>chunk_size = 5, chunk_overlap = 4\<rparr> ''aaa.bbb'' n = (0, replicate n ''aaa.'')"
proof (induction n)
  case 0
  show ?case by (simp add: chunk_iter_def)
next
  case (Suc n)
  have "chunk_iter \<lparr>chunk_size = 5, chunk_overlap = 4\<rparr> ''aaa.bbb'' (Suc n) =
      (if fst (chunk_iter \<lparr>chunk_size = 5, chunk_overlap = 4\<rparr> ''aaa.bbb'' n) < int (length ''aaa.bbb'')
       then chunk_step \<lparr>chunk_size = 5, chunk_overlap = 4\<rparr> ''aaa.bbb''
              (chunk_iter \<lparr>chunk_size = 5, chunk_overlap = 4\<rparr> ''aaa.bbb'' n)
       else chunk_iter \<lparr>chunk_size = 5, chunk_overlap = 4\<rparr> ''aaa.bbb'' n)"
    by (simp add: chunk_iter_def)
  with Suc show ?case
    by (simp add: stall_step replicate_append_same)
qed

text \<open>
  Claim C7: for every text and every valid configuration, every non-whitespace character
  of the text appears in the concatenation of the chunks that \<^verbatim>\<open>chunk_text\<close> returns.
  The code does not do this in the valid configuration \<open>chunk_size = 5\<close>,
  \<open>chunk_overlap = 4\<close> on the text \<^verbatim>\<open>aaa.bbb\<close>: the scan stalls at cursor 0, appending
  \<^verbatim>\<open>aaa.\<close> in every pass, so no list is ever returned, and the list \<^verbatim>\<open>chunks\<close> holds
  no \<^verbatim>\<open>b\<close> after any number of passes.
\<close>

theorem stalled_scan_loses_text:
  "valid_config \<lparr>chunk_size = 5, chunk_overlap = 4\<rparr> \<and>
   ''aaa.bbb'' ! 4 = CHR ''b'' \<and>
   \<not> is_space (CHR ''b'') \<and>
   chunk_text \<lparr>chunk_size = 5, chunk_overlap = 4\<rparr> ''aaa.bbb'' = None \<and>
   (\<forall>n. chunk_iter \<lparr>chunk_size = 5, chunk_overlap = 4\<rparr> ''aaa.bbb'' n = (0, replicate n ''aaa.'')) \<and>
   (\<forall>n. CHR ''b'' \<notin> set (concat (snd (chunk_iter \<lparr>chunk_size = 5, chunk_overlap = 4\<rparr> ''aaa.bbb'' n))))"
proof -
  have "chunk_text \<lparr>chunk_size = 5, chunk_overlap = 4\<rparr> ''aaa.bbb'' \<noteq> Some r" for r
  proof
    assume "chunk_text \<lparr>chunk_size = 5, chunk_overlap = 4\<rparr> ''aaa.bbb'' = Some r"
    then have "chunk_loop \<lparr>chunk_size = 5, chunk_overlap = 4\<rparr> ''aaa.bbb'' 0 [] = Some r"
      by (simp add: chunk_text_def)
    from chunk_loop_rule [OF this, of "\<lambda>st. fst st = 0"]
    show False by (auto simp: stall_step)
  qed
  then have none: "chunk_text \<lparr>chunk_size = 5, chunk_overlap = 4\<rparr> ''aaa.bbb'' = None"
    by auto
  have v: "valid_config \<lparr>chunk_size = 5, chunk_overlap = 4\<rparr>"
    by (simp add: valid_config_def)
  have b: "''aaa.bbb'' ! 4 = CHR ''b'' \<and> \<not> is_space (CHR ''b'')"
    by (simp add: is_space_def)
  have "CHR ''b'' \<notin> set (concat (snd (chunk_iter \<lparr>chunk_size = 5, chunk_overlap = 4\<rparr> ''aaa.bbb'' n)))" for n
    by (simp add: stall_iter)
  with v b none stall_iter show ?thesis by blast
qed

section \<open>Documents of a directory\<close>

lemma make_documents_length: "length (make_documents file fpath chunks) = length chunks"
  by (simp add: make_documents_def)

lemma make_documents_index:
  "map (\<lambda>d. chunk_index (metadata d)) (make_documents file fpath chunks) = [0..<length chunks]"
proof -
  have "map (\<lambda>d. chunk_index (metadata d)) (make_documents file fpath chunks) =
      map fst (enumerate 0 chunks)"
    by (simp add: make_documents_def case_prod_unfold comp_def)
  then show ?thesis by (simp add: map_fst_enumerate)
qed

lemma make_documents_fields:
  assumes "d \<in> set (make_documents file fpath chunks)"
  shows "total_chunks (metadata d) = length chunks \<and> file_path (metadata d) = fpath \<and>
         source (metadata d) = file"
  using assms by (auto simp: make_documents_def)

lemma process_file_block:
  assumes "process_file self fs rootdir file = Some ds"
  shows "map (\<lambda>d. chunk_index (metadata d)) ds = [0..<length ds] \<and>
         (\<forall>d\<in>set ds. total_chunks (metadata d) = length ds \<and>
                      file_path (metadata d) = path_join rootdir file)"
proof (cases "\<exists>chunks. ds = make_documents file (path_join rootdir file) chunks")
  case True
  then obtain chunks where "ds = make_documents file (path_join rootdir file) chunks" by blast
  then show ?thesis
    using make_documents_fields [of _ "file" "path_join rootdir file" chunks]
    by (simp add: make_documents_index make_documents_length)
next
  case False
  with assms have "ds = []"
    by (auto simp: process_file_def Let_def split: if_splits sum.splits option.splits)
  then show ?thesis by simp
qed

lemma process_files_filter:
  assumes "process_files self fs files acc = Some documents"
    and "distinct (map (\<lambda>(rootdir, file). path_join rootdir file) files)"
  shows "\<exists>ds. filter (\<lambda>d. file_path (metadata d) = p) documents =
              filter (\<lambda>d. file_path (metadata d) = p) acc @ ds \<and>
              (ds = [] \<or> (\<exists>rf\<in>set files. path_join (fst rf) (snd rf) = p \<and>
                              process_file self fs (fst rf) (snd rf) = Some ds))"
  using assms
proof (induction files arbitrary: acc)
  case Nil
  then show ?case by simp
next
  case (Cons rf rest)
  obtain rootdir f where rf: "rf = (rootdir, f)" by (cases rf)
  from Cons.prems(1) rf obtain ds where ds: "process_file self fs rootdir f = Some ds"
    and rest: "process_files self fs rest (acc @ ds) = Some documents"
    by (auto split: option.splits)
  from Cons.prems(2) have dist: "distinct (map (\<lambda>(rootdir, file). path_join rootdir file) rest)"
    by simp
  from Cons.prems(2) rf have fresh: "\<forall>x\<in>set rest. path_join (fst x) (snd x) \<noteq> path_join rootdir f"
    by (force simp: case_prod_unfold image_iff)
  from Cons.IH [OF rest dist] obtain es where
    es: "filter (\<lambda>d. file_path (metadata d) = p) documents =
           filter (\<lambda>d. file_path (metadata d) = p) (acc @ ds) @ es"
    and es_block: "es = [] \<or> (\<exists>x\<in>set rest. path_join (fst x) (snd x) = p \<and>
                              process_file self fs (fst x) (snd x) = Some es)"
    by blast
  have paths: "\<forall>d\<in>set ds. file_path (metadata d) = path_join rootdir f"
    using process_file_block [OF ds] by simp
  show ?case
  proof (cases "path_join rootdir f = p")
    case False
    with paths have "filter (\<lambda>d. file_path (metadata d) = p) ds = []"
      by (auto simp: filter_empty_conv)
    with es es_block show ?thesis by auto
  next
    case True
    with paths have all: "filter (\<lambda>d. file_path (metadata d) = p) ds = ds"
      by (auto simp: filter_id_conv)
    from es_block fresh True have "es = []" by auto
    with es all have "filter (\<lambda>d. file_path (metadata d) = p) documents =
        filter (\<lambda>d. file_path (metadata d) = p) acc @ ds"
      by simp
    moreover have "\<exists>x\<in>set (rf # rest). path_join (fst x) (snd x) = p \<and>
        process_file self fs (fst x) (snd x) = Some ds"
      using rf ds True by simp
    ultimately show ?thesis by blast
  qed
qed

lemma process_files_append:
  "process_files self fs (xs @ ys) acc =
     (case process_files self fs xs acc of
        None \<Rightarrow> None
      | Some documents \<Rightarrow> process_files self fs ys documents)"
proof (induction xs arbitrary: acc)
  case Nil
  then show ?case by simp
next
  case (Cons x xs)
  obtain rootdir f where "x = (rootdir, f)" by (cases x)
  with Cons show ?case by (simp split: option.splits)
qed

lemma example_walk:
  "walk_files example_fs ''docs'' =
     [(''docs'', ''a.txt''), (''docs'', ''blank.txt''), (''docs'', ''.hidden.txt''),
      (''docs'', ''b.pdf''), (''docs/sub'', ''a.txt'')]"
  by (simp add: walk_files_def example_fs_def)

lemma example_documents:
  "process_directory \<lparr>chunk_size = 20, chunk_overlap = 5\<rparr> example_fs ''docs'' =
     Some (Inr (make_documents ''a.txt'' ''docs/a.txt''
                  [''Sentence one.'', ''one. Sentence two.'', ''two. Sentence three.'', ''hree.''] @
                make_documents ''a.txt'' ''docs/sub/a.txt'' [''hello'']))"
  by code_simp

text \<open>
  Claim C6: every chunk produced from one source file carries the same \<^verbatim>\<open>total_chunks\<close>,
  the number of chunks of that file, and the \<^verbatim>\<open>chunk_index\<close> values of those chunks are
  exactly \<open>0, \<dots>, total_chunks - 1\<close> in order. A file is identified by its path
  (\<^verbatim>\<open>file_path\<close>); the paths that one walk of the directory visits are distinct.
\<close>

theorem chunk_indices_contiguous:
  assumes "process_directory self fs directory = Some (Inr documents)"
    and "distinct (map (\<lambda>(rootdir, file). path_join rootdir file) (walk_files fs directory))"
    and "ds = filter (\<lambda>d. file_path (metadata d) = p) documents"
  shows "map (\<lambda>d. chunk_index (metadata d)) ds = [0..<length ds] \<and>
         (\<forall>d\<in>set ds. total_chunks (metadata d) = length ds)"
proof -
  from assms(1) have "process_files self fs (walk_files fs directory) [] = Some documents"
    by (auto simp: process_directory_def split: if_splits)
  from process_files_filter [OF this assms(2), of p] assms(3)
  have "ds = [] \<or> (\<exists>rf. process_file self fs (fst rf) (snd rf) = Some ds)"
    by auto
  then show ?thesis
  proof
    assume "ds = []"
    then show ?thesis by simp
  next
    assume "\<exists>rf. process_file self fs (fst rf) (snd rf) = Some ds"
    then obtain rf where "process_file self fs (fst rf) (snd rf) = Some ds" ..
    from process_file_block [OF this] show ?thesis by simp
  qed
qed

theorem chunk_indices_contiguous_witness:
  "process_directory \<lparr>chunk_size = 20, chunk_overlap = 5\<rparr> example_fs ''docs'' =
     Some (Inr (make_documents ''a.txt'' ''docs/a.txt''
                  [''Sentence one.'', ''one. Sentence two.'', ''two. Sentence three.'', ''hree.''] @
                make_documents ''a.txt'' ''docs/sub/a.txt'' [''hello''])) \<and>
   distinct (map (\<lambda>(rootdir, file). path_join rootdir file) (walk_files example_fs ''docs'')) \<and>
   map (\<lambda>d. chunk_index (metadata d))
     (filter (\<lambda>d. file_path (metadata d) = ''docs/a.txt'')
        (make_documents ''a.txt'' ''docs/a.txt''
           [''Sentence one.'', ''one. Sentence two.'', ''two. Sentence three.'', ''hree.''] @
         make_documents ''a.txt'' ''docs/sub/a.txt'' [''hello''])) = [0, 1, 2, 3]"
proof -
  have d: "distinct (map (\<lambda>(rootdir, file). path_join rootdir file) (walk_files example_fs ''docs''))"
    by (simp add: example_walk path_join_def)
  have n: "length (filter (\<lambda>d. file_path (metadata d) = ''docs/a.txt'')
        (make_documents ''a.txt'' ''docs/a.txt''
           [''Sentence one.'', ''one. Sentence two.'', ''two. Sentence three.'', ''hree.''] @
         make_documents ''a.txt'' ''docs/sub/a.txt'' [''hello''])) = 4"
    by (simp add: make_documents_def enumerate_eq_zip)
  from chunk_indices_contiguous [OF example_documents d refl, of "''docs/a.txt''"]
  have "map (\<lambda>d. chunk_index (metadata d))
     (filter (\<lambda>d. file_path (metadata d) = ''docs/a.txt'')
        (make_documents ''a.txt'' ''docs/a.txt''
           [''Sentence one.'', ''one. Sentence two.'', ''two. Sentence three.'', ''hree.''] @
         make_documents ''a.txt'' ''docs/sub/a.txt'' [''hello''])) = [0, 1, 2, 3]"
    unfolding n by (simp add: upt_rec)
  with example_documents d show ?thesis by blast
qed

lemma process_files_concat:
  assumes "\<forall>rf\<in>set files. process_file self fs (fst rf) (snd rf) = Some (docs_of rf)"
  shows "process_files self fs files acc = Some (acc @ concat (map docs_of files))"
  using assms
proof (induction files arbitrary: acc)
  case Nil
  then show ?case by simp
next
  case (Cons rf rest)
  obtain rootdir f where rf: "rf = (rootdir, f)" by (cases rf)
  from Cons.prems rf have "process_file self fs rootdir f = Some (docs_of rf)" by simp
  moreover from Cons have "process_files self fs rest (acc @ docs_of rf) =
      Some ((acc @ docs_of rf) @ concat (map docs_of rest))"
    by simp
  ultimately show ?case using rf by simp
qed

text \<open>
  Claim C10: during directory ingestion a file whose loaded content is empty or only
  whitespace is skipped without error: it contributes no document, and the other files
  of the walk are processed as they are without it. With \<open>docs_of\<close> the documents that
  the loop body appends for each other file, the result is the documents of the files
  before the skipped one followed by those of the files after it; a later file that is
  loaded and chunked contributes one document per chunk.
\<close>

theorem whitespace_file_skipped:
  assumes "load_file fs (path_join rootdir file) = Inr loaded"
    and "strip loaded = []"
    and "path_exists fs directory"
    and "walk_files fs directory = before @ (rootdir, file) # after"
    and "\<forall>rf\<in>set (before @ after). process_file self fs (fst rf) (snd rf) = Some (docs_of rf)"
  shows "process_file self fs rootdir file = Some [] \<and>
         process_directory self fs directory =
           Some (Inr (concat (map docs_of before) @ concat (map docs_of after))) \<and>
         (\<forall>r f t chunks. (r, f) \<in> set after \<and> \<not> startswith_dot f \<and>
              load_file fs (path_join r f) = Inr t \<and> strip t \<noteq> [] \<and>
              chunk_text self t = Some chunks \<longrightarrow>
              docs_of (r, f) = make_documents f (path_join r f) chunks)"
proof (intro conjI allI impI)
  show skip: "process_file self fs rootdir file = Some []"
    using assms(1,2) by (simp add: process_file_def Let_def)
  from assms(5) have "process_files self fs before [] = Some ([] @ concat (map docs_of before))"
    by (intro process_files_concat) simp
  moreover from assms(5) have "process_files self fs after (concat (map docs_of before)) =
      Some (concat (map docs_of before) @ concat (map docs_of after))"
    by (intro process_files_concat) simp
  ultimately have "process_files self fs (walk_files fs directory) [] =
      Some (concat (map docs_of before) @ concat (map docs_of after))"
    using assms(4) skip by (simp add: process_files_append)
  with assms(3) show "process_directory self fs directory =
      Some (Inr (concat (map docs_of before) @ concat (map docs_of after)))"
    by (simp add: process_directory_def)
next
  fix r f t chunks
  assume a: "(r, f) \<in> set after \<and> \<not> startswith_dot f \<and>
      load_file fs (path_join r f) = Inr t \<and> strip t \<noteq> [] \<and> chunk_text self t = Some chunks"
  then have "process_file self fs r f = Some (make_documents f (path_join r f) chunks)"
    by (simp add: process_file_def Let_def)
  moreover have "process_file self fs r f = Some (docs_of (r, f))"
  proof -
    from a have "(r, f) \<in> set (before @ after)" by simp
    with assms(5) have "process_file self fs (fst (r, f)) (snd (r, f)) = Some (docs_of (r, f))"
      by (rule bspec)
    then show ?thesis by simp
  qed
  ultimately show "docs_of (r, f) = make_documents f (path_join r f) chunks" by simp
qed

theorem whitespace_file_skipped_witness:
  "load_file example_fs (path_join ''docs'' ''blank.txt'') = Inr '' \<newline>  '' \<and>
   strip '' \<newline>  '' = [] \<and>
   path_exists example_fs ''docs'' \<and>
   walk_files example_fs ''docs'' =
     [(''docs'', ''a.txt'')] @ (''docs'', ''blank.txt'') #
     [(''docs'', ''.hidden.txt''), (''docs'', ''b.pdf''), (''docs/sub'', ''a.txt'')] \<and>
   process_file \<lparr>chunk_size = 20, chunk_overlap = 5\<rparr> example_fs ''docs'' ''a.txt'' =
     Some (make_documents ''a.txt'' ''docs/a.txt''
             [''Sentence one.'', ''one. Sentence two.'', ''two. Sentence three.'', ''hree.'']) \<and>
   process_file \<lparr>chunk_size = 20, chunk_overlap = 5\<rparr> example_fs ''docs'' ''.hidden.txt'' = Some [] \<and>
   process_file \<lparr>chunk_size = 20, chunk_overlap = 5\<rparr> example_fs ''docs'' ''b.pdf'' = Some [] \<and>
   process_file \<lparr>chunk_size = 20, chunk_overlap = 5\<rparr> example_fs ''docs/sub'' ''a.txt'' =
     Some (make_documents ''a.txt'' ''docs/sub/a.txt'' [''hello'']) \<and>
   process_file \<lparr>chunk_size = 20, chunk_overlap = 5\<rparr> example_fs ''docs'' ''blank.txt'' = Some [] \<and>
   process_directory \<lparr>chunk_size = 20, chunk_overlap = 5\<rparr> example_fs ''docs'' =
     Some (Inr (make_documents ''a.txt'' ''docs/a.txt''
                  [''Sentence one.'', ''one. Sentence two.'', ''two. Sentence three.'', ''hree.''] @
                make_documents ''a.txt'' ''docs/sub/a.txt'' [''hello'']))"
proof -
  let ?cfg = "\<lparr>chunk_size = 20, chunk_overlap = 5\<rparr>"
  let ?A = "make_documents ''a.txt'' ''docs/a.txt''
      [''Sentence one.'', ''one. Sentence two.'', ''two. Sentence three.'', ''hree.'']"
  let ?B = "make_documents ''a.txt'' ''docs/sub/a.txt'' [''hello'']"
  let ?docs_of = "\<lambda>rf. if rf = (''docs'', ''a.txt'') then ?A
      else if rf = (''docs/sub'', ''a.txt'') then ?B else []"
  have l: "load_file example_fs (path_join ''docs'' ''blank.txt'') = Inr '' \<newline>  ''"
    by code_simp
  have s: "strip '' \<newline>  '' = []"
    by (simp add: strip_def is_space_def)
  have e: "path_exists example_fs ''docs''"
    by (simp add: example_fs_def)
  have w: "walk_files example_fs ''docs'' =
     [(''docs'', ''a.txt'')] @ (''docs'', ''blank.txt'') #
     [(''docs'', ''.hidden.txt''), (''docs'', ''b.pdf''), (''docs/sub'', ''a.txt'')]"
    by (simp add: example_walk)
  have a: "process_file ?cfg example_fs ''docs'' ''a.txt'' = Some ?A"
    by code_simp
  have h: "process_file ?cfg example_fs ''docs'' ''.hidden.txt'' = Some []"
    by code_simp
  have b: "process_file ?cfg example_fs ''docs'' ''b.pdf'' = Some []"
    by code_simp
  have c: "process_file ?cfg example_fs ''docs/sub'' ''a.txt'' = Some ?B"
    by code_simp
  have others: "\<forall>rf\<in>set ([(''docs'', ''a.txt'')] @
        [(''docs'', ''.hidden.txt''), (''docs'', ''b.pdf''), (''docs/sub'', ''a.txt'')]).
      process_file ?cfg example_fs (fst rf) (snd rf) = Some (?docs_of rf)"
    using a h b c by simp
  from whitespace_file_skipped [OF l s e w others]
  have "process_file ?cfg example_fs ''docs'' ''blank.txt'' = Some []"
    and "process_directory ?cfg example_fs ''docs'' = Some (Inr (?A @ ?B))"
    by simp_all
  with l s e w a h b c show ?thesis by blast
qed

section \<open>The vector store\<close>

lemma str_nat_small: "n < 10 \<Longrightarrow> str_nat n = [char_of (48 + n)]"
  by (subst str_nat.simps) simp

lemma str_nat_large: "\<not> n < 10 \<Longrightarrow> str_nat n = str_nat (n div 10) @ [char_of (48 + n mod 10)]"
  by (subst str_nat.simps) simp

lemma str_nat_nonempty: "str_nat n \<noteq> []"
  by (cases "n < 10") (simp_all add: str_nat_small str_nat_large)

lemma digit_inj:
  assumes "(char_of (48 + a) :: char) = char_of (48 + b)" and "a < 10" and "b < 10"
  shows "a = (b::nat)"
proof -
  from assms(1) have "(of_char (char_of (48 + a) :: char) :: nat) = of_char (char_of (48 + b) :: char)"
    by simp
  with assms(2,3) show ?thesis by simp
qed

lemma str_nat_inj: "str_nat n = str_nat m \<Longrightarrow> n = m"
proof (induction n arbitrary: m rule: str_nat.induct)
  case (1 n)
  show ?case
  proof (cases "n < 10")
    case True
    note n = this
    show ?thesis
    proof (cases "m < 10")
      case True
      with n "1.prems" have "(char_of (48 + n) :: char) = char_of (48 + m)"
        by (simp add: str_nat_small)
      from digit_inj [OF this n True] show ?thesis .
    next
      case False
      with n "1.prems" str_nat_nonempty [of "m div 10"] show ?thesis
        by (simp add: str_nat_small str_nat_large)
    qed
  next
    case False
    note n = this
    show ?thesis
    proof (cases "m < 10")
      case True
      with n "1.prems" str_nat_nonempty [of "n div 10"] show ?thesis
        by (simp add: str_nat_small str_nat_large)
    next
      case False
      with n "1.prems" have eq: "str_nat (n div 10) = str_nat (m div 10)"
        and d: "(char_of (48 + n mod 10) :: char) = char_of (48 + m mod 10)"
        by (simp_all add: str_nat_large)
      from "1.IH" [OF n eq] have "n div 10 = m div 10" .
      moreover have "n mod 10 = m mod 10" by (rule digit_inj [OF d]) simp_all
      ultimately show ?thesis by (metis div_mult_mod_eq)
    qed
  qed
qed

lemma doc_id_inj: "doc_id n = doc_id m \<Longrightarrow> n = m"
  by (simp add: doc_id_def str_nat_inj)

lemma inj_doc_id: "inj doc_id"
  by (rule injI) (rule doc_id_inj)


lemma embed_documents_ids:
  "embed_documents self docs i = Inr es \<Longrightarrow>
     map entry_id es = map (\<lambda>k. doc_id (count self + k)) [i..<i + length docs]"
proof (induction docs arbitrary: i es)
  case Nil
  then show ?case by simp
next
  case (Cons doc docs)
  from Cons.prems obtain emb es' where es': "embed_documents self docs (i + 1) = Inr es'"
    and es: "es = \<lparr>entry_id = doc_id (count self + i), embedding = emb,
                   entry_document = content doc, entry_metadata = metadata doc\<rparr> # es'"
    by (auto split: sum.splits)
  have "i < Suc (i + length docs)" by simp
  from upt_conv_Cons [OF this]
  have c: "[i..<Suc (i + length docs)] = i # [Suc i..<Suc (i + length docs)]" .
  have ih: "map entry_id es' =
      map (\<lambda>k. doc_id (count self + k)) [Suc i..<Suc (i + length docs)]"
    using Cons.IH [OF es'] by (simp del: upt_Suc)
  show ?case using es ih by (simp del: upt_Suc add: c)
qed

lemma embed_documents_success:
  "\<forall>d\<in>set docs. \<not> isl (embedding_model self (content d)) \<Longrightarrow>
     \<exists>es. embed_documents self docs i = Inr es"
proof (induction docs arbitrary: i)
  case Nil
  then show ?case by simp
next
  case (Cons doc docs)
  from Cons.prems obtain emb where "embedding_model self (content doc) = Inr emb"
    by (cases "embedding_model self (content doc)") auto
  moreover from Cons obtain es where "embed_documents self docs (i + 1) = Inr es"
    by fastforce
  ultimately show ?case by simp
qed

lemma embed_documents_failure:
  "k < length docs \<Longrightarrow> embedding_model self (content (docs ! k)) = Inl e \<Longrightarrow>
   \<forall>j<k. \<not> isl (embedding_model self (content (docs ! j))) \<Longrightarrow>
     embed_documents self docs i = Inl e"
proof (induction docs arbitrary: k i)
  case Nil
  then show ?case by simp
next
  case (Cons doc docs)
  show ?case
  proof (cases k)
    case 0
    with Cons.prems show ?thesis by simp
  next
    case (Suc k')
    with Cons.prems have "\<not> isl (embedding_model self (content doc))" by auto
    then obtain emb where emb: "embedding_model self (content doc) = Inr emb"
      by (cases "embedding_model self (content doc)") auto
    have "embed_documents self docs (i + 1) = Inl e"
    proof (rule Cons.IH [of k'])
      show "k' < length docs" using Cons.prems(1) Suc by simp
      show "embedding_model self (content (docs ! k')) = Inl e" using Cons.prems(2) Suc by simp
      show "\<forall>j<k'. \<not> isl (embedding_model self (content (docs ! j)))"
        using Cons.prems(3) Suc by auto
    qed
    with emb show ?thesis by simp
  qed
qed

lemma collection_add_fresh:
  assumes "distinct (map entry_id es)"
    and "entry_id ` set c \<inter> entry_id ` set es = {}"
  shows "collection_add c es = Inr (c @ es)"
proof -
  from assms(2) have "\<forall>e\<in>set es. entry_id e \<notin> entry_id ` set c" by blast
  then have "filter (\<lambda>e. entry_id e \<notin> entry_id ` set c) es = es"
    by (simp add: filter_id_conv)
  with assms(1) show ?thesis by (simp add: collection_add_def)
qed

lemma distinct_doc_ids: "distinct (map doc_id [0..<n])"
proof -
  have "inj_on doc_id (set [0..<n])"
    using inj_doc_id subset_UNIV by (rule inj_on_subset)
  then show ?thesis by (simp add: distinct_map)
qed

lemma shifted_doc_ids:
  "map (\<lambda>k. doc_id (c + k)) [0..<n] = map doc_id [c..<c + n]"
proof -
  have "map (\<lambda>k. doc_id (c + k)) [0..<n] = map doc_id (map (\<lambda>k. k + c) [0..<n])"
    by (simp add: add.commute)
  also have "map (\<lambda>k. k + c) [0..<n] = [c..<n + c]"
    by (rule map_add_upt)
  finally show ?thesis by (simp add: add.commute)
qed

lemma add_documents_success:
  assumes "ids_in_order self"
    and "documents \<noteq> []"
    and "embed_documents self documents 0 = Inr es"
  shows "add_documents self documents = (None, self\<lparr>collection := collection self @ es\<rparr>) \<and>
         length es = length documents \<and>
         map entry_id (collection self @ es) = map doc_id [0..<count self + length documents]"
proof -
  have ids: "map entry_id es = map (\<lambda>k. doc_id (count self + k)) [0..<length documents]"
    using embed_documents_ids [OF assms(3)] by simp
  have "length (map entry_id es) = length documents"
    unfolding ids by simp
  then have len: "length es = length documents" by simp
  have new: "map entry_id es = map doc_id [count self..<count self + length documents]"
    unfolding ids by (rule shifted_doc_ids)
  have old: "map entry_id (collection self) = map doc_id [0..<count self]"
    using assms(1) by (simp add: ids_in_order_def)
  have "[0..<count self + length documents] =
      [0..<count self] @ [count self..<count self + length documents]"
    by (rule upt_add_eq_append) simp
  then have all: "map entry_id (collection self @ es) =
      map doc_id [0..<count self + length documents]"
    using old new by simp
  have "distinct (map entry_id (collection self @ es))"
    unfolding all by (rule distinct_doc_ids)
  then have "distinct (map entry_id es)"
    and "entry_id ` set (collection self) \<inter> entry_id ` set es = {}"
    by simp_all
  then have "collection_add (collection self) es = Inr (collection self @ es)"
    by (rule collection_add_fresh)
  with assms(2,3) len all show ?thesis
    by (simp add: add_documents_def)
qed

lemma ids_in_order_clear: "count (clear self) = 0 \<and> ids_in_order (clear self)"
  by (simp add: clear_def count_def collection_count_def ids_in_order_def)

lemma example_store_ids: "ids_in_order example_store"
  by code_simp

lemma collection_query_length:
  assumes "1 \<le> n" and "n \<le> int (length c)"
  shows "\<exists>r. collection_query c d [q] n = Inr [r] \<and> int (length r) = n"
  using assms by (simp add: collection_query_def)

text \<open>
  Claim C8: \<^verbatim>\<open>count()\<close> equals the number of entries inserted since the last
  \<^verbatim>\<open>clear()\<close>: adding a batch of \<open>N\<close> entries with no embedding failure to a store
  holding \<open>C\<close> entries gives \<open>C + N\<close>, and right after \<^verbatim>\<open>clear()\<close> the count is 0.
  The ids of a store that only \<^verbatim>\<open>add_documents\<close> has filled are \<^verbatim>\<open>doc_0\<close>, \<^verbatim>\<open>doc_1\<close>,
  \<dots>; a cleared store has them, and every successful add keeps them, so the ids of a new
  batch are never held already.
\<close>

theorem count_is_cumulative:
  assumes "ids_in_order self"
    and "\<forall>d\<in>set documents. \<not> isl (embedding_model self (content d))"
  shows "fst (add_documents self documents) = None \<and>
         count (snd (add_documents self documents)) = count self + length documents \<and>
         ids_in_order (snd (add_documents self documents)) \<and>
         count (clear self) = 0 \<and> ids_in_order (clear self)"
proof (cases "documents = []")
  case True
  with assms(1) show ?thesis
    by (simp add: add_documents_def ids_in_order_clear)
next
  case False
  from embed_documents_success [OF assms(2)] obtain es where
    es: "embed_documents self documents 0 = Inr es" by blast
  from add_documents_success [OF assms(1) False es]
  have add: "add_documents self documents = (None, self\<lparr>collection := collection self @ es\<rparr>)"
    and len: "length es = length documents"
    and ids: "map entry_id (collection self @ es) = map doc_id [0..<count self + length documents]"
    by simp_all
  have cnt: "count (self\<lparr>collection := collection self @ es\<rparr>) = count self + length documents"
    using len by (simp add: count_def collection_count_def)
  have "ids_in_order (self\<lparr>collection := collection self @ es\<rparr>)"
    unfolding ids_in_order_def cnt using ids by simp
  with add cnt show ?thesis by (simp add: ids_in_order_clear)
qed

theorem count_is_cumulative_witness:
  "ids_in_order example_store \<and>
   \<not> isl (embedding_model example_store ''hello'') \<and>
   \<not> isl (embedding_model example_store ''hi'') \<and>
   count example_store = 2 \<and>
   fst (add_documents example_store
          [\<lparr>content = ''hello'', metadata = ()\<rparr>, \<lparr>content = ''hi'', metadata = ()\<rparr>]) = None \<and>
   count (snd (add_documents example_store
          [\<lparr>content = ''hello'', metadata = ()\<rparr>, \<lparr>content = ''hi'', metadata = ()\<rparr>])) = 4 \<and>
   count (clear example_store) = 0"
proof -
  have e: "\<forall>d\<in>set [\<lparr>content = ''hello'', metadata = ()\<rparr>, \<lparr>content = ''hi'', metadata = ()\<rparr>].
      \<not> isl (embedding_model example_store (content d))"
    by (simp add: example_store_def)
  have c: "count example_store = 2"
    by (simp add: example_store_def count_def collection_count_def)
  from count_is_cumulative [OF example_store_ids e] e c show ?thesis
    by (simp add: example_store_ids)
qed

text \<open>
  Claim C2, as stated: when the embedding of the entry at a position \<open>i > 0\<close> of a batch
  fails, the entries before it stay inserted and the count grows. The code embeds the
  whole batch into local lists first and calls \<^verbatim>\<open>collection.add\<close> once, after the loop:
  a failure in the loop leaves the collection as it was.
\<close>

theorem failed_add_counterexample:
  "embedding_model example_store ''hello'' = Inr 5 \<and>
   embedding_model example_store [] = Inl EncodeError \<and>
   add_documents example_store
     [\<lparr>content = ''hello'', metadata = ()\<rparr>, \<lparr>content = [], metadata = ()\<rparr>] =
     (Some EncodeError, example_store) \<and>
   count (snd (add_documents example_store
     [\<lparr>content = ''hello'', metadata = ()\<rparr>, \<lparr>content = [], metadata = ()\<rparr>])) =
     count example_store \<and>
   \<not> count example_store < count (snd (add_documents example_store
     [\<lparr>content = ''hello'', metadata = ()\<rparr>, \<lparr>content = [], metadata = ()\<rparr>]))"
  by (simp add: add_documents_def example_store_def)

text \<open>
  Claim C2, amended: when the embedding of some entry of a batch fails, the add call
  aborts with the error of the first entry that fails, and no entry of the batch is
  inserted: the store, and so its count, is as before the call.
\<close>

theorem failed_add_inserts_nothing:
  assumes "k < length documents"
    and "embedding_model self (content (documents ! k)) = Inl e"
    and "\<forall>j<k. \<not> isl (embedding_model self (content (documents ! j)))"
  shows "add_documents self documents = (Some e, self) \<and>
         count (snd (add_documents self documents)) = count self"
proof -
  from assms(1) have "documents \<noteq> []" by auto
  moreover have "embed_documents self documents 0 = Inl e"
    using assms by (rule embed_documents_failure)
  ultimately show ?thesis by (simp add: add_documents_def)
qed

theorem failed_add_inserts_nothing_witness:
  "(1::nat) < length [\<lparr>content = ''hello'', metadata = ()\<rparr>, \<lparr>content = [], metadata = ()\<rparr>] \<and>
   embedding_model example_store
     (content ([\<lparr>content = ''hello'', metadata = ()\<rparr>, \<lparr>content = [], metadata = ()\<rparr>] ! 1)) =
     Inl EncodeError \<and>
   \<not> isl (embedding_model example_store ''hello'') \<and>
   add_documents example_store
     [\<lparr>content = ''hello'', metadata = ()\<rparr>, \<lparr>content = [], metadata = ()\<rparr>] =
     (Some EncodeError, example_store)"
proof -
  have k: "(1::nat) < length [\<lparr>content = ''hello'', metadata = ()\<rparr>, \<lparr>content = [], metadata = ()\<rparr>]"
    by simp
  have f: "embedding_model example_store
     (content ([\<lparr>content = ''hello'', metadata = ()\<rparr>, \<lparr>content = [], metadata = ()\<rparr>] ! 1)) =
     Inl EncodeError"
    by (simp add: example_store_def)
  have h: "\<not> isl (embedding_model example_store ''hello'')"
    by (simp add: example_store_def)
  then have p: "\<forall>j<1. \<not> isl (embedding_model example_store
     (content ([\<lparr>content = ''hello'', metadata = ()\<rparr>, \<lparr>content = [], metadata = ()\<rparr>] ! j)))"
    by simp
  from failed_add_inserts_nothing [OF k f p] k f h show ?thesis by blast
qed

text \<open>
  Claim C5: for every store and every \<open>top_k \<ge> 1\<close>, \<^verbatim>\<open>search\<close> returns at most
  \<open>min(top_k, count())\<close> strings; on an empty store it returns the empty list without an
  error, whether or not the query can be embedded; and when the query is embedded it
  returns exactly \<open>min(top_k, count())\<close> strings, so 2 for a store of 2 entries and
  \<open>top_k = 5\<close>.
\<close>

theorem search_result_size:
  assumes "1 \<le> top_k"
  shows "(count self = 0 \<longrightarrow> search self query top_k = Inr []) \<and>
         (\<forall>r. search self query top_k = Inr r \<longrightarrow>
              int (length r) \<le> min top_k (int (count self))) \<and>
         (\<forall>q. embedding_model self query = Inr q \<longrightarrow>
              (\<exists>r. search self query top_k = Inr r \<and>
                   int (length r) = min top_k (int (count self))))"
proof (cases "count self = 0")
  case True
  with assms show ?thesis by (simp add: search_def)
next
  case False
  let ?n = "min top_k (int (count self))"
  from False have pos: "1 \<le> int (length (collection self))"
    by (cases "collection self") (simp_all add: count_def collection_count_def)
  have cnt: "int (count self) = int (length (collection self))"
    by (simp add: count_def collection_count_def)
  from assms pos have n: "1 \<le> ?n" "?n \<le> int (length (collection self))"
    unfolding cnt by linarith+
  have found: "\<exists>r. search self query top_k = Inr r \<and> int (length r) = ?n"
    if q: "embedding_model self query = Inr q" for q
  proof -
    from collection_query_length [OF n, of "distance self" q] obtain r where
      "collection_query (collection self) (distance self) [q] ?n = Inr [r]"
      and "int (length r) = ?n" by blast
    with False q show ?thesis by (simp add: search_def)
  qed
  have bound: "int (length r) \<le> ?n" if r: "search self query top_k = Inr r" for r
  proof (cases "embedding_model self query")
    case (Inl e)
    with False r show ?thesis by (simp add: search_def)
  next
    case (Inr q)
    from found [OF this] r show ?thesis by auto
  qed
  from False found bound show ?thesis by blast
qed

theorem search_result_size_witness:
  "(1::int) \<le> 5 \<and>
   count example_store = 2 \<and>
   embedding_model example_store ''q'' = Inr 1 \<and>
   search example_store ''q'' 5 = Inr [''a'', ''abc''] \<and>
   int (length [''a'', ''abc'']) = min 5 (int (count example_store)) \<and>
   count (clear example_store) = 0 \<and>
   search (clear example_store) ''q'' 5 = Inr []"
proof -
  have k: "(1::int) \<le> 5" by simp
  have c: "count example_store = 2"
    by (simp add: example_store_def count_def collection_count_def)
  have q: "embedding_model example_store ''q'' = Inr 1"
    by (simp add: example_store_def)
  have s: "search example_store ''q'' 5 = Inr [''a'', ''abc'']"
    by (simp add: search_def example_store_def count_def collection_count_def
        collection_query_def)
  have z: "count (clear example_store) = 0"
    by (simp add: clear_def count_def collection_count_def)
  from search_result_size [OF k, of example_store "''q''"]
    search_result_size [OF k, of "clear example_store" "''q''"] c q s z
  show ?thesis by auto
qed

end
